theory Spec2Isabelle
  imports Main "HOL-Library.Word"
begin

unbundle bit_operations_syntax

section \<open>The cache simulator of \<^verbatim>\<open>cache_simulator.c\<close>\<close>

text \<open>
  The simulator keeps an array of sets; every set is a queue of lines from the most
  recently used (head) to the least recently used (tail). \<^verbatim>\<open>count\<close> performs one
  access, \<^verbatim>\<open>free_cache\<close> counts the dirty lines left at the end, and \<^verbatim>\<open>main\<close>
  decodes every trace record and fills in the statistics.

  Conventions of the embedding:
  \<^item> \<^verbatim>\<open>unsigned long\<close> is \<open>64 word\<close>; \<^verbatim>\<open>int\<close> is \<open>int\<close>, and where a result may
    leave the range of a 32-bit \<^verbatim>\<open>int\<close> the model says so (\<open>None\<close> or an error).
  \<^item> A C shift is defined only for amounts from 0 to width - 1, and \<^verbatim>\<open>1 << n\<close> on
    \<^verbatim>\<open>int\<close> only while the result fits. A shift outside that range is undefined
    behaviour: it is \<open>None\<close> here, and the run fails at the statement that executes it,
    whether or not the result is used afterwards.
  \<^item> The doubly linked queue of a set is the list of its lines, read from \<^verbatim>\<open>head\<close>
    along \<^verbatim>\<open>next\<close>; \<^verbatim>\<open>tail\<close> is the last element. \<^verbatim>\<open>curr_line_num\<close> is a field of
    its own, as in the source. Every node is created together with its line
    (lines 109 to 114), so a node without a line does not occur.
  \<^item> Failures of the C program (null dereference, access outside the array of sets,
    use of a freed node, undefined arithmetic) are values of \<open>error\<close>, paired with
    the state at the moment of the failure.
\<close>

subsection \<open>Data\<close>

record cache_line =
  valid_bit :: int
  dirty_bit :: int
  tag :: "64 word"

record queue_set =
  lines :: "cache_line list"
  curr_line_num :: int

text \<open>The global counters and the cache itself.\<close>

record state =
  cache :: "queue_set list"
  hit :: int
  miss :: int
  eviction :: int
  dirty_count :: int
  dirty_eviction :: int

datatype error = UndefinedShift | IntOverflow | OutOfBounds | NullDeref | UseAfterFree

type_synonym result = "(error \<times> state) + state"

text \<open>
  Modelled from the spec: the struct \<^verbatim>\<open>csim_stats_t\<close> of \<^verbatim>\<open>cachelab.h\<close>, which is not
  among the sources. Its fields are the five that \<^verbatim>\<open>main\<close> assigns (lines 245 to 249),
  each an \<^verbatim>\<open>unsigned long\<close> as the casts there say; the report of the specification
  has the same five 64-bit fields.
\<close>

record csim_stats =
  hits :: "64 word"
  misses :: "64 word"
  evictions :: "64 word"
  dirty_bytes :: "64 word"
  dirty_evictions :: "64 word"

subsection \<open>Shifts and the address decoder (lines 211 to 213, 230 to 233)\<close>

definition ADDRESS_BITS :: int where
  "ADDRESS_BITS = 64"

definition shl :: "64 word \<Rightarrow> int \<Rightarrow> 64 word option" where
  "shl x n = (if 0 \<le> n \<and> n < 64 then Some (push_bit (nat n) x) else None)"

definition shr :: "64 word \<Rightarrow> int \<Rightarrow> 64 word option" where
  "shr x n = (if 0 \<le> n \<and> n < 64 then Some (drop_bit (nat n) x) else None)"

text \<open>\<^verbatim>\<open>1 << n\<close> on \<^verbatim>\<open>int\<close>: defined while the result fits, that is for n from 0 to 30.\<close>

definition int_shl1 :: "int \<Rightarrow> int option" where
  "int_shl1 n = (if 0 \<le> n \<and> n \<le> 30 then Some (2 ^ nat n) else None)"

text \<open>\<^verbatim>\<open>t = ADDRESS_BITS - (s + b)\<close>\<close>

definition tag_bits :: "int \<Rightarrow> int \<Rightarrow> int" where
  "tag_bits s b = ADDRESS_BITS - (s + b)"

text \<open>\<^verbatim>\<open>curr_tag = address >> (s + b)\<close>\<close>

definition curr_tag :: "int \<Rightarrow> int \<Rightarrow> 64 word \<Rightarrow> 64 word option" where
  "curr_tag s b address = shr address (s + b)"

text \<open>
  \<^verbatim>\<open>curr_set_num = (address << t) >> (b + t); if (t == ADDRESS_BITS) curr_set_num = 0;\<close>
  Both shifts of line 231 are executed before the guard of line 232 is reached, so
  the guard can replace the value only of shifts that were defined.
\<close>

definition curr_set_num :: "int \<Rightarrow> int \<Rightarrow> 64 word \<Rightarrow> 64 word option" where
  "curr_set_num s b address =
     (let t = tag_bits s b
      in case shl address t of
           None \<Rightarrow> None
         | Some x \<Rightarrow>
             (case shr x (b + t) of
                None \<Rightarrow> None
              | Some v \<Rightarrow> Some (if t = ADDRESS_BITS then 0 else v)))"

text \<open>The shift amounts one record makes the decoder use, in program order.\<close>

definition decode_shifts :: "int \<Rightarrow> int \<Rightarrow> int list" where
  "decode_shifts s b = [s + b, tag_bits s b, b + tag_bits s b]"

text \<open>The decoder as the specification words it: a tag and a masked set index.\<close>

definition spec_tag :: "nat \<Rightarrow> nat \<Rightarrow> 64 word \<Rightarrow> 64 word" where
  "spec_tag s b a = drop_bit (s + b) a"

definition spec_set_index :: "nat \<Rightarrow> nat \<Rightarrow> 64 word \<Rightarrow> 64 word" where
  "spec_set_index s b a = (drop_bit b a) AND (push_bit s 1 - 1)"

subsection \<open>One access: \<^verbatim>\<open>count\<close> (lines 67 to 151)\<close>

text \<open>
  The search loop of lines 72 to 103 walks the queue from the head. \<open>passed\<close> holds the
  nodes already passed, so \<open>passed = []\<close> is \<^verbatim>\<open>prev_node == NULL\<close>. On the first valid
  line with the wanted tag a store marks it dirty, and the node is unlinked and put at
  the head (lines 82 to 96); a node already at the head stays there.
\<close>

fun search :: "64 word \<Rightarrow> int \<Rightarrow> cache_line list \<Rightarrow> cache_line list \<Rightarrow> cache_line list option" where
  "search ctag dirty passed [] = None"
| "search ctag dirty passed (check_line # rest) =
     (if valid_bit check_line \<noteq> 0 \<and> tag check_line = ctag
      then Some ((if dirty = 1 then check_line\<lparr>dirty_bit := 1\<rparr> else check_line) # passed @ rest)
      else search ctag dirty (passed @ [check_line]) rest)"

text \<open>
  Lines 116 to 135: the eviction of the tail of set \<open>i\<close>. With two or more nodes the tail
  is unlinked; with one node the queue is emptied only if \<^verbatim>\<open>curr_line_num\<close> is 1,
  otherwise \<^verbatim>\<open>head\<close> keeps pointing at the node that line 134 frees, and line 142
  writes through it. With no node at all line 129 dereferences \<^verbatim>\<open>NULL\<close>.
\<close>

definition evict_tail :: "state \<Rightarrow> nat \<Rightarrow> result" where
  "evict_tail st i =
     (let q = cache st ! i;
          st1 = st\<lparr>eviction := eviction st + 1\<rparr>
      in case lines q of
           [] \<Rightarrow> Inl (NullDeref, st1)
         | _ # _ \<Rightarrow>
             (let evict_line = last (lines q);
                  st2 = (if dirty_bit evict_line = 1
                         then st1\<lparr>dirty_eviction := dirty_eviction st1 + 1\<rparr> else st1)
              in if 2 \<le> length (lines q)
                 then Inr (st2\<lparr>cache := (cache st2)
                        [i := q\<lparr>lines := butlast (lines q), curr_line_num := curr_line_num q - 1\<rparr>]\<rparr>)
                 else if curr_line_num q = 1
                 then Inr (st2\<lparr>cache := (cache st2)
                        [i := q\<lparr>lines := [], curr_line_num := curr_line_num q - 1\<rparr>]\<rparr>)
                 else Inl (UseAfterFree, st2\<lparr>cache := (cache st2)
                        [i := q\<lparr>curr_line_num := curr_line_num q - 1\<rparr>]\<rparr>)))"

text \<open>Lines 138 to 148: the new node becomes the head of set \<open>i\<close>.\<close>

definition insert_head :: "state \<Rightarrow> nat \<Rightarrow> cache_line \<Rightarrow> state" where
  "insert_head st i new_line =
     (let q = cache st ! i
      in st\<lparr>cache := (cache st)
            [i := q\<lparr>lines := new_line # lines q, curr_line_num := curr_line_num q + 1\<rparr>]\<rparr>)"

text \<open>
  \<^verbatim>\<open>count\<close> itself. \<open>E\<close> is the global of that name. The set index is an
  \<^verbatim>\<open>unsigned long\<close>; an index outside the array of sets is an access out of bounds.
  Both \<^verbatim>\<open>malloc\<close> calls are taken to succeed, as the source takes them.
\<close>

definition count :: "int \<Rightarrow> state \<Rightarrow> 64 word \<Rightarrow> 64 word \<Rightarrow> int \<Rightarrow> result" where
  "count E st ctag cset dirty =
     (let i = unat cset
      in if length (cache st) \<le> i then Inl (OutOfBounds, st)
         else
           (let q = cache st ! i
            in case search ctag dirty [] (lines q) of
                 Some ls \<Rightarrow>
                   Inr (st\<lparr>hit := hit st + 1, cache := (cache st)[i := q\<lparr>lines := ls\<rparr>]\<rparr>)
               | None \<Rightarrow>
                   (let st1 = st\<lparr>miss := miss st + 1\<rparr>;
                        new_line = \<lparr>valid_bit = 1, dirty_bit = dirty, tag = ctag\<rparr>
                    in if E \<le> curr_line_num q
                       then (case evict_tail st1 i of
                               Inl e \<Rightarrow> Inl e
                             | Inr st2 \<Rightarrow> Inr (insert_head st2 i new_line))
                       else Inr (insert_head st1 i new_line))))"

subsection \<open>The loop of \<^verbatim>\<open>main\<close> (lines 229 to 239)\<close>

text \<open>A trace record is what one \<^verbatim>\<open>fscanf\<close> yields: operation, address, size.\<close>

type_synonym trace_record = "char \<times> 64 word \<times> int"

text \<open>
  The body of the loop. Lines 230 to 233 decode the address of every record, whatever
  its operation, before line 234 looks at the operation: an undefined shift there ends
  the run for an ignored record as well.
\<close>

definition step :: "int \<Rightarrow> int \<Rightarrow> int \<Rightarrow> state \<Rightarrow> trace_record \<Rightarrow> result" where
  "step s b E st r =
     (case r of (operation, address, sz) \<Rightarrow>
        (case curr_tag s b address of
           None \<Rightarrow> Inl (UndefinedShift, st)
         | Some ctag \<Rightarrow>
             (case curr_set_num s b address of
                None \<Rightarrow> Inl (UndefinedShift, st)
              | Some cset \<Rightarrow>
                  if operation = CHR ''L'' then count E st ctag cset 0
                  else if operation = CHR ''S'' then count E st ctag cset 1
                  else Inr st)))"

fun simulate :: "int \<Rightarrow> int \<Rightarrow> int \<Rightarrow> state \<Rightarrow> trace_record list \<Rightarrow> result" where
  "simulate s b E st [] = Inr st"
| "simulate s b E st (r # rs) =
     (case step s b E st r of
        Inl e \<Rightarrow> Inl e
      | Inr st' \<Rightarrow> simulate s b E st' rs)"

subsection \<open>\<^verbatim>\<open>free_cache\<close> (lines 158 to 177)\<close>

text \<open>The inner loop over one queue, then the loop over the first \<open>S\<close> sets.\<close>

fun free_queue :: "cache_line list \<Rightarrow> int \<Rightarrow> int" where
  "free_queue [] dc = dc"
| "free_queue (l # ls) dc = free_queue ls (if dirty_bit l = 1 then dc + 1 else dc)"

fun free_sets :: "queue_set list \<Rightarrow> int \<Rightarrow> int" where
  "free_sets [] dc = dc"
| "free_sets (q # qs) dc = free_sets qs (free_queue (lines q) dc)"

definition free_cache :: "int \<Rightarrow> state \<Rightarrow> state" where
  "free_cache S st =
     st\<lparr>dirty_count := free_sets (take (nat S) (cache st)) (dirty_count st), cache := []\<rparr>"

subsection \<open>\<^verbatim>\<open>main\<close> (lines 179 to 256)\<close>

text \<open>
  The arguments \<open>s\<close>, \<open>E\<close>, \<open>b\<close> are what \<^verbatim>\<open>atoi\<close> returned, the trace what \<^verbatim>\<open>fscanf\<close>
  read. \<^verbatim>\<open>S = 1 << s\<close> and \<^verbatim>\<open>B = 1 << b\<close> are computed on lines 211 and 212, before the
  cache is created and the loop starts: if either is undefined the run ends there. The
  counters are \<^verbatim>\<open>int\<close>s that only grow, so one of them has overflowed during the run
  exactly if its value here is above the largest \<^verbatim>\<open>int\<close> at the end; the products of
  lines 248 and 249 are \<^verbatim>\<open>int\<close> products, cast afterwards.

  The allocation of line 216 is taken to succeed, like those inside \<^verbatim>\<open>count\<close>: the source
  checks none of them, and a failed one ends the run at the first write through the null
  pointer (line 218, line 110). What is stated of \<open>main\<close> is stated of runs whose
  allocations succeed.
\<close>

definition int_ok :: "int \<Rightarrow> bool" where
  "int_ok n \<longleftrightarrow> - (2 ^ 31) \<le> n \<and> n < 2 ^ 31"

text \<open>\<^verbatim>\<open>(unsigned long)(n * B)\<close>\<close>

definition bytes :: "int \<Rightarrow> int \<Rightarrow> (error + 64 word)" where
  "bytes n B = (if int_ok (n * B) then Inr (word_of_int (n * B)) else Inl IntOverflow)"

definition initial_state :: "int \<Rightarrow> state" where
  "initial_state S =
     \<lparr>cache = replicate (nat S) \<lparr>lines = [], curr_line_num = 0\<rparr>,
      hit = 0, miss = 0, eviction = 0, dirty_count = 0, dirty_eviction = 0\<rparr>"

definition summary :: "int \<Rightarrow> state \<Rightarrow> (error \<times> state) + csim_stats" where
  "summary B st =
     (if \<not> (int_ok (miss st) \<and> int_ok (hit st) \<and> int_ok (eviction st)
             \<and> int_ok (dirty_eviction st) \<and> int_ok (dirty_count st))
      then Inl (IntOverflow, st)
      else
        (case bytes (dirty_eviction st) B of
           Inl e \<Rightarrow> Inl (e, st)
         | Inr de \<Rightarrow>
             (case bytes (dirty_count st) B of
                Inl e \<Rightarrow> Inl (e, st)
              | Inr db \<Rightarrow>
                  Inr \<lparr>hits = word_of_int (hit st), misses = word_of_int (miss st),
                       evictions = word_of_int (eviction st),
                       dirty_bytes = db, dirty_evictions = de\<rparr>)))"

definition main :: "int \<Rightarrow> int \<Rightarrow> int \<Rightarrow> trace_record list \<Rightarrow> (error \<times> state) + csim_stats" where
  "main s E b trace =
     (case int_shl1 s of
        None \<Rightarrow> Inl (UndefinedShift, initial_state 0)
      | Some S \<Rightarrow>
          (case int_shl1 b of
             None \<Rightarrow> Inl (UndefinedShift, initial_state 0)
           | Some B \<Rightarrow>
               (case simulate s b E (initial_state S) trace of
                  Inl e \<Rightarrow> Inl e
                | Inr st \<Rightarrow> summary B (free_cache S st))))"

subsection \<open>Notions used in the statements\<close>

text \<open>The state a run ends in, or stopped in.\<close>

definition state_of :: "result \<Rightarrow> state" where
  "state_of r = (case r of Inl (e, st) \<Rightarrow> st | Inr st \<Rightarrow> st)"

text \<open>The counter of a set agrees with its queue.\<close>

definition counted :: "queue_set \<Rightarrow> bool" where
  "counted q \<longleftrightarrow> curr_line_num q = int (length (lines q))"

text \<open>The resident line count of a set, by its queue and by its counter, is at most \<open>E\<close>.\<close>

definition within_capacity :: "int \<Rightarrow> queue_set \<Rightarrow> bool" where
  "within_capacity E q \<longleftrightarrow> int (length (lines q)) \<le> E \<and> curr_line_num q \<le> E"

text \<open>No two valid lines of a set carry the same tag.\<close>

definition unique_tags :: "queue_set \<Rightarrow> bool" where
  "unique_tags q \<longleftrightarrow> distinct (map tag (filter (\<lambda>l. valid_bit l \<noteq> 0) (lines q)))"

text \<open>The test of line 75.\<close>

definition holds_tag :: "64 word \<Rightarrow> cache_line \<Rightarrow> bool" where
  "holds_tag ctag l \<longleftrightarrow> valid_bit l \<noteq> 0 \<and> tag l = ctag"

text \<open>The number of resident lines, and of resident lines whose dirty bit is 1.\<close>

definition resident_lines :: "queue_set list \<Rightarrow> nat" where
  "resident_lines qs = sum_list (map (\<lambda>q. length (lines q)) qs)"

definition resident_dirty :: "queue_set list \<Rightarrow> nat" where
  "resident_dirty qs = sum_list (map (\<lambda>q. length (filter (\<lambda>l. dirty_bit l = 1) (lines q))) qs)"

text \<open>
  Bounds on the counters after \<open>n\<close> trace records, with \<^verbatim>\<open>dirty_count\<close> still untouched.
\<close>

definition bounded :: "nat \<Rightarrow> state \<Rightarrow> bool" where
  "bounded n st \<longleftrightarrow>
     0 \<le> hit st \<and> 0 \<le> miss st \<and> hit st + miss st \<le> int n
     \<and> 0 \<le> dirty_eviction st \<and> dirty_eviction st \<le> eviction st \<and> eviction st \<le> miss st
     \<and> int (resident_lines (cache st)) \<le> miss st \<and> dirty_count st = 0"

section \<open>The address decoder\<close>

lemma shift_pair_mask:
  fixes a :: "64 word"
  assumes "1 \<le> s" and "s + b \<le> 63"
  shows "drop_bit (b + (64 - (s + b))) (push_bit (64 - (s + b)) a) = (drop_bit b a) AND mask s"
  using assms by (intro bit_eqI) (auto simp add: bit_simps ac_simps)

lemma curr_tag_defined:
  assumes "0 \<le> s" and "0 \<le> b" and "s + b \<le> 63"
  shows "curr_tag s b a = Some (drop_bit (nat s + nat b) a)"
  using assms by (simp add: curr_tag_def shr_def nat_add_distrib)

lemma curr_set_num_defined:
  assumes "1 \<le> s" and "0 \<le> b" and "s + b \<le> 63"
  shows "curr_set_num s b a = Some ((drop_bit (nat b) a) AND mask (nat s))"
proof -
  let ?t = "64 - (s + b)"
  have t: "tag_bits s b = ?t" "?t \<noteq> 64" "0 \<le> ?t" "?t < 64"
    using assms by (simp_all add: tag_bits_def ADDRESS_BITS_def)
  have bt: "0 \<le> b + ?t" "b + ?t < 64"
    using assms by simp_all
  have n1: "nat ?t = 64 - (nat s + nat b)"
    using assms by (simp add: nat_diff_distrib nat_add_distrib)
  have n2: "nat (b + ?t) = nat b + (64 - (nat s + nat b))"
    using assms by (simp add: nat_diff_distrib nat_add_distrib)
  have "curr_set_num s b a = Some (drop_bit (nat (b + ?t)) (push_bit (nat ?t) a))"
    using t bt by (simp add: curr_set_num_def shl_def shr_def ADDRESS_BITS_def Let_def)
  also have "drop_bit (nat (b + ?t)) (push_bit (nat ?t) a) = (drop_bit (nat b) a) AND mask (nat s)"
    unfolding n1 n2 using assms by (intro shift_pair_mask) simp_all
  finally show ?thesis .
qed

text \<open>
  Claim C1, as the code has it. For every 64-bit address and every geometry with
  s at least 1, b at least 0 and s + b at most 63 (the geometries in which each of the
  three shift amounts s + b, t and b + t lies below 64) the decoder yields the tag
  \<open>a >> (s + b)\<close> and the set index \<open>(a >> b) & ((1 << s) - 1)\<close>: the shift pair
  \<open>(a << t) >> (b + t)\<close> with t = 64 - s - b equals the mask formula.
\<close>

theorem decoder_agrees_with_mask_formula:
  assumes "1 \<le> s" and "0 \<le> b" and "s + b \<le> 63"
  shows "curr_tag s b a = Some (spec_tag (nat s) (nat b) a)
       \<and> curr_set_num s b a = Some (spec_set_index (nat s) (nat b) a)"
  using assms
  by (simp add: curr_tag_defined curr_set_num_defined spec_tag_def spec_set_index_def
      mask_eq_exp_minus_1)

theorem decoder_agrees_with_mask_formula_witness:
  "curr_tag 4 5 0xABCD = Some 0x55 \<and> curr_set_num 4 5 0xABCD = Some 0xE"
  using decoder_agrees_with_mask_formula [of 4 5 "0xABCD"]
  by (simp add: spec_tag_def spec_set_index_def)

text \<open>
  With s + b = 64 the tag is \<open>address >> 64\<close>, which C leaves undefined, while the
  formula of the specification gives 0; with s = 0 and b = 1 the set index is
  \<open>(address << 63) >> 64\<close>, undefined as well.
\<close>

theorem decoder_counterexample:
  "curr_tag 32 32 0x10 = None \<and> spec_tag 32 32 0x10 = 0
   \<and> curr_set_num 0 1 0x10 = None \<and> spec_set_index 0 1 0x10 = 0"
  by (simp add: curr_tag_def curr_set_num_def shr_def shl_def tag_bits_def ADDRESS_BITS_def
      spec_tag_def spec_set_index_def)

text \<open>
  Claim C4 at the geometry s = 0, b = 1 (one set, blocks of two bytes), which satisfies
  s + b \<le> 64, and the address \<^verbatim>\<open>0x11\<close>: the decoder shifts \<open>0x11 << 63\<close>, which is
  \<open>2 ^ 63\<close>, right by b + t = 64 bits; the guard \<^verbatim>\<open>t == ADDRESS_BITS\<close> does not fire
  since t = 63; the set index is left without a defined value instead of being 0, and the
  first load of the run uses it.
\<close>

theorem decoder_shift_by_64_when_s_is_0:
  "decode_shifts 0 1 = [1, 63, 64]
   \<and> tag_bits 0 1 = 63
   \<and> shl 0x11 63 = Some 0x8000000000000000
   \<and> shr 0x8000000000000000 64 = None
   \<and> curr_set_num 0 1 0x11 = None
   \<and> main 0 1 1 [(CHR ''L'', 0x11, 1)] = Inl (UndefinedShift, initial_state 1)"
  by (simp add: decode_shifts_def curr_set_num_def curr_tag_def shr_def shl_def tag_bits_def
      ADDRESS_BITS_def main_def int_shl1_def step_def)

section \<open>The search loop and the cases of an access\<close>

lemma state_of_simps [simp]: "state_of (Inl (e, st)) = st" "state_of (Inr st) = st"
  by (simp_all add: state_of_def)

lemma search_None: "search ctag d passed ls = None \<longleftrightarrow> (\<forall>l\<in>set ls. \<not> (valid_bit l \<noteq> 0 \<and> tag l = ctag))"
  by (induction ls arbitrary: passed) auto

lemma search_Some:
  "search ctag d passed ls = Some r \<Longrightarrow>
   \<exists>pre l post. ls = pre @ l # post \<and> (\<forall>x\<in>set pre. \<not> (valid_bit x \<noteq> 0 \<and> tag x = ctag))
      \<and> valid_bit l \<noteq> 0 \<and> tag l = ctag
      \<and> r = (if d = 1 then l\<lparr>dirty_bit := 1\<rparr> else l) # passed @ pre @ post"
proof (induction ls arbitrary: passed)
  case Nil
  then show ?case by simp
next
  case (Cons a ls)
  show ?case
  proof (cases "valid_bit a \<noteq> 0 \<and> tag a = ctag")
    case True
    with Cons.prems have "r = (if d = 1 then a\<lparr>dirty_bit := 1\<rparr> else a) # passed @ [] @ ls" by auto
    with True show ?thesis by (intro exI[of _ "[]"] exI[of _ a] exI[of _ ls]) simp
  next
    case False
    with Cons.prems have "search ctag d (passed @ [a]) ls = Some r" by auto
    from Cons.IH[OF this] obtain pre l post where
      h: "ls = pre @ l # post" "\<forall>x\<in>set pre. \<not> (valid_bit x \<noteq> 0 \<and> tag x = ctag)"
         "valid_bit l \<noteq> 0 \<and> tag l = ctag"
         "r = (if d = 1 then l\<lparr>dirty_bit := 1\<rparr> else l) # (passed @ [a]) @ pre @ post" by blast
    with False show ?thesis by (intro exI[of _ "a # pre"] exI[of _ l] exI[of _ post]) auto
  qed
qed

lemma search_length: "search ctag d passed ls = Some r \<Longrightarrow> length r = length passed + length ls"
  by (induction ls arbitrary: passed) (auto split: if_splits)

lemma search_unique:
  assumes "search ctag d [] ls = Some r" and "distinct (map tag (filter (\<lambda>l. valid_bit l \<noteq> 0) ls))"
  shows "distinct (map tag (filter (\<lambda>l. valid_bit l \<noteq> 0) r))"
proof -
  from search_Some[OF assms(1)] obtain pre l post where
    h: "ls = pre @ l # post" "valid_bit l \<noteq> 0"
       "r = (if d = 1 then l\<lparr>dirty_bit := 1\<rparr> else l) # [] @ pre @ post" by blast
  with assms(2) show ?thesis by auto
qed

subsection \<open>What \<^verbatim>\<open>count\<close> does, case by case\<close>

lemma count_out_of_bounds:
  "length (cache st) \<le> unat cset \<Longrightarrow> count E st ctag cset d = Inl (OutOfBounds, st)"
  by (simp add: count_def)

lemma set_upd_lines: "(q::queue_set)\<lparr>lines := ls\<rparr> = \<lparr>lines = ls, curr_line_num = curr_line_num q\<rparr>"
  by (cases q) simp

lemma set_upd_both: "(q::queue_set)\<lparr>lines := ls, curr_line_num := n\<rparr> = \<lparr>lines = ls, curr_line_num = n\<rparr>"
  by (cases q) simp

lemma set_upd_num: "(q::queue_set)\<lparr>curr_line_num := n\<rparr> = \<lparr>lines = lines q, curr_line_num = n\<rparr>"
  by (cases q) simp

lemmas set_upd = set_upd_lines set_upd_both set_upd_num

lemma count_hit:
  assumes "unat cset < length (cache st)"
    and "search ctag d [] (lines (cache st ! unat cset)) = Some ls"
  shows "count E st ctag cset d =
     Inr (st\<lparr>hit := hit st + 1, cache := (cache st)[unat cset :=
        \<lparr>lines = ls, curr_line_num = curr_line_num (cache st ! unat cset)\<rparr>]\<rparr>)"
  using assms by (simp add: count_def Let_def set_upd_lines)

lemma count_miss_room:
  assumes "unat cset < length (cache st)"
    and "search ctag d [] (lines (cache st ! unat cset)) = None"
    and "curr_line_num (cache st ! unat cset) < E"
  shows "count E st ctag cset d =
     Inr (st\<lparr>miss := miss st + 1, cache := (cache st)[unat cset :=
        \<lparr>lines = \<lparr>valid_bit = 1, dirty_bit = d, tag = ctag\<rparr> # lines (cache st ! unat cset),
         curr_line_num = curr_line_num (cache st ! unat cset) + 1\<rparr>]\<rparr>)"
  using assms by (simp add: count_def Let_def insert_head_def set_upd)

lemma evict_tail_ok:
  assumes "i < length (cache st)"
    and "lines (cache st ! i) \<noteq> []"
    and "2 \<le> length (lines (cache st ! i)) \<or> curr_line_num (cache st ! i) = 1"
  shows "evict_tail st i =
     Inr (st\<lparr>eviction := eviction st + 1,
          dirty_eviction := (if dirty_bit (last (lines (cache st ! i))) = 1
                             then dirty_eviction st + 1 else dirty_eviction st),
          cache := (cache st)[i :=
             \<lparr>lines = butlast (lines (cache st ! i)), curr_line_num = curr_line_num (cache st ! i) - 1\<rparr>]\<rparr>)"
proof (cases "lines (cache st ! i)")
  case Nil
  with assms show ?thesis by simp
next
  case (Cons a list)
  show ?thesis
  proof (cases "2 \<le> length (lines (cache st ! i))")
    case True
    then show ?thesis using Cons by (simp add: evict_tail_def Let_def set_upd)
  next
    case False
    with assms Cons have "list = []" "curr_line_num (cache st ! i) = 1"
      by (cases list; simp)+
    then show ?thesis using Cons by (simp add: evict_tail_def Let_def set_upd)
  qed
qed

lemma count_miss_full:
  assumes "unat cset < length (cache st)"
    and "search ctag d [] (lines (cache st ! unat cset)) = None"
    and "E \<le> curr_line_num (cache st ! unat cset)"
    and "lines (cache st ! unat cset) \<noteq> []"
    and "2 \<le> length (lines (cache st ! unat cset)) \<or> curr_line_num (cache st ! unat cset) = 1"
  shows "count E st ctag cset d =
     Inr (st\<lparr>miss := miss st + 1, eviction := eviction st + 1,
          dirty_eviction := (if dirty_bit (last (lines (cache st ! unat cset))) = 1
                             then dirty_eviction st + 1 else dirty_eviction st),
          cache := (cache st)[unat cset :=
        \<lparr>lines = \<lparr>valid_bit = 1, dirty_bit = d, tag = ctag\<rparr> # butlast (lines (cache st ! unat cset)),
         curr_line_num = curr_line_num (cache st ! unat cset) - 1 + 1\<rparr>]\<rparr>)"
proof -
  let ?st1 = "st\<lparr>miss := miss st + 1\<rparr>"
  have "evict_tail ?st1 (unat cset) = Inr (?st1\<lparr>eviction := eviction ?st1 + 1,
          dirty_eviction := (if dirty_bit (last (lines (cache ?st1 ! unat cset))) = 1
                             then dirty_eviction ?st1 + 1 else dirty_eviction ?st1),
          cache := (cache ?st1)[unat cset :=
             \<lparr>lines = butlast (lines (cache ?st1 ! unat cset)), curr_line_num = curr_line_num (cache ?st1 ! unat cset) - 1\<rparr>]\<rparr>)"
    using assms(1,4,5) by (intro evict_tail_ok) simp_all
  then show ?thesis
    using assms(1,2,3) by (simp add: count_def Let_def insert_head_def set_upd)
qed

lemma count_null_deref:
  assumes "unat cset < length (cache st)"
    and "lines (cache st ! unat cset) = []"
    and "E \<le> curr_line_num (cache st ! unat cset)"
  shows "count E st ctag cset d = Inl (NullDeref, st\<lparr>miss := miss st + 1, eviction := eviction st + 1\<rparr>)"
  using assms by (simp add: count_def Let_def evict_tail_def)

lemma count_use_after_free:
  assumes "unat cset < length (cache st)"
    and "search ctag d [] (lines (cache st ! unat cset)) = None"
    and "E \<le> curr_line_num (cache st ! unat cset)"
    and "length (lines (cache st ! unat cset)) = 1"
    and "curr_line_num (cache st ! unat cset) \<noteq> 1"
  shows "count E st ctag cset d =
     Inl (UseAfterFree, st\<lparr>miss := miss st + 1, eviction := eviction st + 1,
          dirty_eviction := (if dirty_bit (last (lines (cache st ! unat cset))) = 1
                             then dirty_eviction st + 1 else dirty_eviction st),
          cache := (cache st)[unat cset :=
        \<lparr>lines = lines (cache st ! unat cset),
         curr_line_num = curr_line_num (cache st ! unat cset) - 1\<rparr>]\<rparr>)"
proof -
  from assms(4) obtain a where a: "lines (cache st ! unat cset) = [a]"
    by (cases "lines (cache st ! unat cset)") auto
  show ?thesis
    using assms(1,2,3,5) a by (simp add: count_def Let_def evict_tail_def set_upd)
qed

lemma count_cases [case_names out_of_bounds hit miss_room miss_full null_deref use_after_free]:
  fixes E st ctag cset d
  defines "i \<equiv> unat cset"
  defines "q \<equiv> cache st ! i"
  obtains
    "length (cache st) \<le> i" "count E st ctag cset d = Inl (OutOfBounds, st)"
  | ls where "i < length (cache st)" "search ctag d [] (lines q) = Some ls"
      "count E st ctag cset d = Inr (st\<lparr>hit := hit st + 1,
         cache := (cache st)[i := \<lparr>lines = ls, curr_line_num = curr_line_num q\<rparr>]\<rparr>)"
  | "i < length (cache st)" "search ctag d [] (lines q) = None" "curr_line_num q < E"
      "count E st ctag cset d = Inr (st\<lparr>miss := miss st + 1,
         cache := (cache st)[i := \<lparr>lines = \<lparr>valid_bit = 1, dirty_bit = d, tag = ctag\<rparr> # lines q,
            curr_line_num = curr_line_num q + 1\<rparr>]\<rparr>)"
  | "i < length (cache st)" "search ctag d [] (lines q) = None" "E \<le> curr_line_num q"
      "lines q \<noteq> []" "2 \<le> length (lines q) \<or> curr_line_num q = 1"
      "count E st ctag cset d = Inr (st\<lparr>miss := miss st + 1, eviction := eviction st + 1,
          dirty_eviction := (if dirty_bit (last (lines q)) = 1
                             then dirty_eviction st + 1 else dirty_eviction st),
          cache := (cache st)[i :=
             \<lparr>lines = \<lparr>valid_bit = 1, dirty_bit = d, tag = ctag\<rparr> # butlast (lines q),
              curr_line_num = curr_line_num q - 1 + 1\<rparr>]\<rparr>)"
  | "i < length (cache st)" "search ctag d [] (lines q) = None" "E \<le> curr_line_num q"
      "lines q = []"
      "count E st ctag cset d = Inl (NullDeref, st\<lparr>miss := miss st + 1, eviction := eviction st + 1\<rparr>)"
  | "i < length (cache st)" "search ctag d [] (lines q) = None" "E \<le> curr_line_num q"
      "length (lines q) = 1" "curr_line_num q \<noteq> 1"
      "count E st ctag cset d = Inl (UseAfterFree, st\<lparr>miss := miss st + 1, eviction := eviction st + 1,
          dirty_eviction := (if dirty_bit (last (lines q)) = 1
                             then dirty_eviction st + 1 else dirty_eviction st),
          cache := (cache st)[i := \<lparr>lines = lines q, curr_line_num = curr_line_num q - 1\<rparr>]\<rparr>)"
proof (cases "length (cache st) \<le> i")
  case True
  then show ?thesis using that(1) count_out_of_bounds[of st cset E ctag d] by (simp add: i_def)
next
  case False
  then have lt: "unat cset < length (cache st)" by (simp add: i_def)
  show ?thesis
  proof (cases "search ctag d [] (lines q)")
    case (Some ls)
    then show ?thesis using that(2)[of ls] count_hit[OF lt, of ctag d ls E] lt by (simp add: i_def q_def)
  next
    case None
    note n = None[unfolded q_def i_def]
    show ?thesis
    proof (cases "curr_line_num q < E")
      case True
      then show ?thesis using that(3) count_miss_room[OF lt n, of E] lt None by (simp add: i_def q_def)
    next
      case False
      then have full: "E \<le> curr_line_num (cache st ! unat cset)" by (simp add: i_def q_def)
      consider "lines q = []" | "length (lines q) = 1" "curr_line_num q \<noteq> 1"
        | "lines q \<noteq> []" "2 \<le> length (lines q) \<or> curr_line_num q = 1"
        by (cases "lines q") (auto simp: Suc_le_eq)
      then show ?thesis
      proof cases
        case 1
        then show ?thesis
          using that(5) count_null_deref[OF lt _ full, of ctag d] lt None full by (simp add: i_def q_def)
      next
        case 2
        then show ?thesis
          using that(6) count_use_after_free[OF lt n full] lt None full by (simp add: i_def q_def)
      next
        case 3
        then show ?thesis
          using that(4) count_miss_full[OF lt n full] lt None full by (simp add: i_def q_def)
      qed
    qed
  qed
qed

section \<open>Invariants of one access\<close>

lemma in_set_updateD: "x \<in> set (xs[i := y]) \<Longrightarrow> x = y \<or> x \<in> set xs"
  using set_update_subset_insert[of xs i y] by auto

lemma count_capacity:
  assumes E: "1 \<le> E"
    and inv: "\<forall>q\<in>set (cache st). counted q \<and> within_capacity E q"
  shows "\<forall>q\<in>set (cache (state_of (count E st ctag cset d))). counted q \<and> within_capacity E q"
proof (cases rule: count_cases[where E=E and st=st and ctag=ctag and cset=cset and d=d])
  case out_of_bounds
  then show ?thesis using inv by simp
next
  case (hit ls)
  from hit(1) inv have q: "counted (cache st ! unat cset)" "within_capacity E (cache st ! unat cset)"
    by simp_all
  from search_length[OF hit(2)] have "length ls = length (lines (cache st ! unat cset))" by simp
  with q have "counted \<lparr>lines = ls, curr_line_num = curr_line_num (cache st ! unat cset)\<rparr>"
    "within_capacity E \<lparr>lines = ls, curr_line_num = curr_line_num (cache st ! unat cset)\<rparr>"
    by (simp_all add: counted_def within_capacity_def)
  then show ?thesis using inv hit(3) by (auto dest!: in_set_updateD)
next
  case miss_room
  from miss_room(1) inv have q: "counted (cache st ! unat cset)" by simp
  with miss_room(3) show ?thesis using inv miss_room(4)
    by (auto dest!: in_set_updateD simp: counted_def within_capacity_def)
next
  case miss_full
  from miss_full(1) inv have q: "counted (cache st ! unat cset)" "within_capacity E (cache st ! unat cset)"
    by simp_all
  with miss_full(4) show ?thesis using inv miss_full(6)
    by (auto dest!: in_set_updateD simp: counted_def within_capacity_def)
next
  case null_deref
  then show ?thesis using inv by simp
next
  case use_after_free
  from use_after_free(1) inv have "counted (cache st ! unat cset)" by simp
  with use_after_free(4,5) have False by (simp add: counted_def)
  then show ?thesis ..
qed

lemma count_total:
  assumes E: "1 \<le> E"
    and inv: "\<forall>q\<in>set (cache st). counted q"
    and i: "unat cset < length (cache st)"
  shows "\<exists>st'. count E st ctag cset d = Inr st'"
proof (cases rule: count_cases[where E=E and st=st and ctag=ctag and cset=cset and d=d])
  case out_of_bounds
  then show ?thesis using i by simp
next
  case (hit ls)
  then show ?thesis by simp
next
  case miss_room
  then show ?thesis by simp
next
  case miss_full
  then show ?thesis by simp
next
  case null_deref
  from null_deref(1) inv have "counted (cache st ! unat cset)" by simp
  with null_deref(3,4) E show ?thesis by (simp add: counted_def)
next
  case use_after_free
  from use_after_free(1) inv have "counted (cache st ! unat cset)" by simp
  with use_after_free(4,5) show ?thesis by (simp add: counted_def)
qed

lemma count_length: "length (cache (state_of (count E st ctag cset d))) = length (cache st)"
  by (cases rule: count_cases[where E=E and st=st and ctag=ctag and cset=cset and d=d]) simp_all

lemma count_unique:
  assumes inv: "\<forall>q\<in>set (cache st). unique_tags q"
  shows "\<forall>q\<in>set (cache (state_of (count E st ctag cset d))). unique_tags q"
proof (cases rule: count_cases[where E=E and st=st and ctag=ctag and cset=cset and d=d])
  case out_of_bounds
  then show ?thesis using inv by simp
next
  case (hit ls)
  from hit(1) inv have "unique_tags (cache st ! unat cset)" by simp
  with search_unique[OF hit(2)]
  have "unique_tags \<lparr>lines = ls, curr_line_num = curr_line_num (cache st ! unat cset)\<rparr>"
    by (simp add: unique_tags_def)
  then show ?thesis using inv hit(3) by (auto dest!: in_set_updateD)
next
  case miss_room
  from miss_room(1) inv have "unique_tags (cache st ! unat cset)" by simp
  moreover from miss_room(2) have "\<forall>l\<in>set (lines (cache st ! unat cset)). \<not> (valid_bit l \<noteq> 0 \<and> tag l = ctag)"
    by (simp add: search_None)
  ultimately show ?thesis using inv miss_room(4)
    by (auto dest!: in_set_updateD simp: unique_tags_def)
next
  case miss_full
  from miss_full(1) inv have u: "unique_tags (cache st ! unat cset)" by simp
  from miss_full(2) have n: "\<forall>l\<in>set (lines (cache st ! unat cset)). \<not> (valid_bit l \<noteq> 0 \<and> tag l = ctag)"
    by (simp add: search_None)
  from miss_full(4) have ls: "lines (cache st ! unat cset) = butlast (lines (cache st ! unat cset)) @ [last (lines (cache st ! unat cset))]"
    by simp
  from u have "distinct (map tag (filter (\<lambda>l. valid_bit l \<noteq> 0) (butlast (lines (cache st ! unat cset)))))"
    unfolding unique_tags_def by (subst (asm) ls) simp
  moreover from n have "\<forall>l\<in>set (butlast (lines (cache st ! unat cset))). \<not> (valid_bit l \<noteq> 0 \<and> tag l = ctag)"
    by (meson in_set_butlastD)
  ultimately show ?thesis using inv miss_full(6)
    by (auto dest!: in_set_updateD simp: unique_tags_def)
next
  case null_deref
  then show ?thesis using inv by simp
next
  case use_after_free
  from use_after_free(1) inv have u: "unique_tags (cache st ! unat cset)" by simp
  then show ?thesis using inv use_after_free(6)
    by (auto dest!: in_set_updateD simp: unique_tags_def)
qed

section \<open>From one access to the whole trace\<close>

lemma step_cases:
  obtains "step s b E st r = Inr st"
  | "step s b E st r = Inl (UndefinedShift, st)"
  | ctag cset d where "step s b E st r = count E st ctag cset d"
proof -
  obtain operation address sz where r: "r = (operation, address, sz)" by (cases r) auto
  show ?thesis
  proof (cases "curr_tag s b address")
    case None
    then have "step s b E st r = Inl (UndefinedShift, st)" by (simp add: step_def r)
    then show ?thesis by (rule that(2))
  next
    case tg: (Some ctag)
    show ?thesis
    proof (cases "curr_set_num s b address")
      case None
      with tg have "step s b E st r = Inl (UndefinedShift, st)" by (simp add: step_def r)
      then show ?thesis by (rule that(2))
    next
      case sn: (Some cset)
      consider "operation = CHR ''L''" | "operation = CHR ''S''"
        | "operation \<noteq> CHR ''L''" "operation \<noteq> CHR ''S''" by blast
      then show ?thesis
      proof cases
        case 1
        with tg sn have "step s b E st r = count E st ctag cset 0" by (simp add: step_def r)
        then show ?thesis by (rule that(3))
      next
        case 2
        with tg sn have "step s b E st r = count E st ctag cset 1" by (simp add: step_def r)
        then show ?thesis by (rule that(3))
      next
        case 3
        with tg sn have "step s b E st r = Inr st" by (simp add: step_def r)
        then show ?thesis by (rule that(1))
      qed
    qed
  qed
qed

lemma step_invariant:
  assumes "P st" and "\<And>ctag cset d. P (state_of (count E st ctag cset d))"
  shows "P (state_of (step s b E st r))"
proof (cases rule: step_cases[of s b E st r])
  case 1
  then show ?thesis using assms(1) by simp
next
  case 2
  then show ?thesis using assms(1) by simp
next
  case (3 ctag cset d)
  then show ?thesis using assms(2)[of ctag cset d] by simp
qed

lemma simulate_invariant:
  assumes "P st" and "\<And>st ctag cset d. P st \<Longrightarrow> P (state_of (count E st ctag cset d))"
  shows "P (state_of (simulate s b E st trace))"
  using assms(1)
proof (induction trace arbitrary: st)
  case Nil
  then show ?case by simp
next
  case (Cons r rs)
  have P': "P (state_of (step s b E st r))"
  proof (rule step_invariant)
    show "P st" by (rule Cons.prems)
    show "P (state_of (count E st ctag cset d))" for ctag cset d
      using Cons.prems by (rule assms(2))
  qed
  show ?case
  proof (cases "step s b E st r")
    case (Inl e)
    then show ?thesis using P' by (cases e) simp
  next
    case (Inr st')
    with P' have "P st'" by simp
    from Cons.IH[OF this] show ?thesis using Inr by simp
  qed
qed

lemma set_index_in_range:
  fixes x :: "64 word"
  shows "unat (x AND mask n) < 2 ^ n"
proof -
  have "unat (x AND mask n) = take_bit n (unat x)"
    by (simp add: take_bit_eq_mask [symmetric] unsigned_take_bit_eq)
  then show ?thesis by simp
qed

lemma initial_state_sets:
  "q \<in> set (cache (initial_state S)) \<Longrightarrow> q = \<lparr>lines = [], curr_line_num = 0\<rparr>"
  by (auto simp: initial_state_def)

section \<open>The capacity of a set\<close>

text \<open>
  Claim C2. Take any associativity \<open>E\<close> of at least 1, any other geometry, and any trace.
  In the state reached after the trace, whether the run went through or stopped at a
  failure, every set holds at most \<open>E\<close> lines: its queue has at most \<open>E\<close> nodes and its
  counter \<^verbatim>\<open>curr_line_num\<close>, which equals the length of the queue, is at most \<open>E\<close>. Every
  prefix of a trace is a trace, so this is the state after each access. The bound is
  moreover kept by every single call of \<^verbatim>\<open>count\<close>, from any state that has it and for any
  tag, set index and operation.
\<close>

theorem capacity_invariant:
  assumes "1 \<le> E"
  shows "(\<forall>q\<in>set (cache (state_of (simulate s b E (initial_state S) trace))).
            within_capacity E q \<and> counted q)
       \<and> ((\<forall>q\<in>set (cache st). counted q \<and> within_capacity E q) \<longrightarrow>
            (\<forall>q\<in>set (cache (state_of (count E st ctag cset d))).
               counted q \<and> within_capacity E q))"
proof
  let ?P = "\<lambda>st. \<forall>q\<in>set (cache st). counted q \<and> within_capacity E q"
  have "?P (state_of (simulate s b E (initial_state S) trace))"
  proof (rule simulate_invariant)
    show "?P (initial_state S)"
      using assms by (auto dest!: initial_state_sets simp: counted_def within_capacity_def)
    show "?P (state_of (count E st ctag cset d))" if "?P st" for st ctag cset d
      using assms that by (rule count_capacity)
  qed
  then show "\<forall>q\<in>set (cache (state_of (simulate s b E (initial_state S) trace))).
            within_capacity E q \<and> counted q" by blast
  show "(\<forall>q\<in>set (cache st). counted q \<and> within_capacity E q) \<longrightarrow>
            (\<forall>q\<in>set (cache (state_of (count E st ctag cset d))).
               counted q \<and> within_capacity E q)"
    using assms count_capacity[of E st ctag cset d] by blast
qed

theorem capacity_invariant_witness:
  "simulate 1 1 2 (initial_state 2)
        [(CHR ''L'', 0x10, 1), (CHR ''S'', 0x20, 1), (CHR ''L'', 0x10, 1), (CHR ''L'', 0x30, 1)]
     = Inr \<lparr>cache = [\<lparr>lines = [\<lparr>valid_bit = 1, dirty_bit = 0, tag = 12\<rparr>,
                                    \<lparr>valid_bit = 1, dirty_bit = 0, tag = 4\<rparr>], curr_line_num = 2\<rparr>,
                      \<lparr>lines = [], curr_line_num = 0\<rparr>],
            hit = 1, miss = 3, eviction = 1, dirty_count = 0, dirty_eviction = 1\<rparr>
   \<and> list_all (\<lambda>q. within_capacity 2 q \<and> counted q)
     (cache (state_of (simulate 1 1 2 (initial_state 2)
        [(CHR ''L'', 0x10, 1), (CHR ''S'', 0x20, 1), (CHR ''L'', 0x10, 1), (CHR ''L'', 0x30, 1)])))"
proof
  show "simulate 1 1 2 (initial_state 2)
        [(CHR ''L'', 0x10, 1), (CHR ''S'', 0x20, 1), (CHR ''L'', 0x10, 1), (CHR ''L'', 0x30, 1)]
     = Inr \<lparr>cache = [\<lparr>lines = [\<lparr>valid_bit = 1, dirty_bit = 0, tag = 12\<rparr>,
                                    \<lparr>valid_bit = 1, dirty_bit = 0, tag = 4\<rparr>], curr_line_num = 2\<rparr>,
                      \<lparr>lines = [], curr_line_num = 0\<rparr>],
            hit = 1, miss = 3, eviction = 1, dirty_count = 0, dirty_eviction = 1\<rparr>"
    by code_simp
  show "list_all (\<lambda>q. within_capacity 2 q \<and> counted q)
     (cache (state_of (simulate 1 1 2 (initial_state 2)
        [(CHR ''L'', 0x10, 1), (CHR ''S'', 0x20, 1), (CHR ''L'', 0x10, 1), (CHR ''L'', 0x30, 1)])))"
    using capacity_invariant [of 2 1 1 2
        "[(CHR ''L'', 0x10, 1), (CHR ''S'', 0x20, 1), (CHR ''L'', 0x10, 1), (CHR ''L'', 0x30, 1)]",
        THEN conjunct1]
    by (simp add: list_all_iff)
qed

section \<open>Tags within a set\<close>

text \<open>
  Claim C8. In the state reached after any trace, for any geometry, no set has two valid
  lines with the same tag. Every prefix of a trace is a trace, so this holds after each
  access of a simulation. The property is moreover kept by every single call of
  \<^verbatim>\<open>count\<close>, from any state that has it.
\<close>

theorem uniqueness_invariant:
  "(\<forall>q\<in>set (cache (state_of (simulate s b E (initial_state S) trace))). unique_tags q)
   \<and> ((\<forall>q\<in>set (cache st). unique_tags q) \<longrightarrow>
        (\<forall>q\<in>set (cache (state_of (count E st ctag cset d))). unique_tags q))"
proof
  let ?P = "\<lambda>st. \<forall>q\<in>set (cache st). unique_tags q"
  show "?P (state_of (simulate s b E (initial_state S) trace))"
  proof (rule simulate_invariant)
    show "?P (initial_state S)"
      by (auto dest!: initial_state_sets simp: unique_tags_def)
    show "?P (state_of (count E st ctag cset d))" if "?P st" for st ctag cset d
      using that by (rule count_unique)
  qed
  show "?P st \<longrightarrow> ?P (state_of (count E st ctag cset d))"
    using count_unique[of st E ctag cset d] by blast
qed

theorem uniqueness_invariant_witness:
  "map (\<lambda>q. map tag (lines q)) (cache (state_of (simulate 1 1 2 (initial_state 2)
        [(CHR ''L'', 0x10, 1), (CHR ''S'', 0x20, 1), (CHR ''S'', 0x10, 1), (CHR ''L'', 0x30, 1)])))
     = [[12, 4], []]
   \<and> list_all unique_tags
     (cache (state_of (simulate 1 1 2 (initial_state 2)
        [(CHR ''L'', 0x10, 1), (CHR ''S'', 0x20, 1), (CHR ''S'', 0x10, 1), (CHR ''L'', 0x30, 1)])))"
proof
  show "map (\<lambda>q. map tag (lines q)) (cache (state_of (simulate 1 1 2 (initial_state 2)
        [(CHR ''L'', 0x10, 1), (CHR ''S'', 0x20, 1), (CHR ''S'', 0x10, 1), (CHR ''L'', 0x30, 1)])))
     = [[12, 4], []]"
    by code_simp
  show "list_all unique_tags
     (cache (state_of (simulate 1 1 2 (initial_state 2)
        [(CHR ''L'', 0x10, 1), (CHR ''S'', 0x20, 1), (CHR ''S'', 0x10, 1), (CHR ''L'', 0x30, 1)])))"
    using uniqueness_invariant [of 1 1 2 2
        "[(CHR ''L'', 0x10, 1), (CHR ''S'', 0x20, 1), (CHR ''S'', 0x10, 1), (CHR ''L'', 0x30, 1)]",
        THEN conjunct1]
    by (simp add: list_all_iff)
qed

section \<open>What an access leaves alone\<close>

text \<open>
  Claim C10. An access to set index \<open>cset\<close> leaves the number of sets and every set at
  another index as they were (queue, order, dirty bits and counter), whatever the
  outcome. If the access is a hit (the hit counter changed), the counter and the queue
  length of every set, the accessed one included, are unchanged as well.
\<close>

theorem access_frame:
  assumes "st' = state_of (count E st ctag cset d)"
  shows "length (cache st') = length (cache st)
       \<and> (\<forall>j. j \<noteq> unat cset \<longrightarrow> cache st' ! j = cache st ! j)
       \<and> (hit st' \<noteq> hit st \<longrightarrow>
            (\<forall>j. curr_line_num (cache st' ! j) = curr_line_num (cache st ! j)
               \<and> length (lines (cache st' ! j)) = length (lines (cache st ! j))))"
proof (cases rule: count_cases[where E=E and st=st and ctag=ctag and cset=cset and d=d])
  case out_of_bounds
  then show ?thesis using assms by simp
next
  case (hit ls)
  from search_length[OF hit(2)] have "length ls = length (lines (cache st ! unat cset))" by simp
  then show ?thesis using assms hit(1,3) by (simp add: nth_list_update)
next
  case miss_room
  then show ?thesis using assms by simp
next
  case miss_full
  then show ?thesis using assms by simp
next
  case null_deref
  then show ?thesis using assms by simp
next
  case use_after_free
  then show ?thesis using assms by simp
qed

theorem access_frame_witness:
  "cache (state_of (count 1 (initial_state 2) 5 1 1)) ! 0 = \<lparr>lines = [], curr_line_num = 0\<rparr>
   \<and> length (cache (state_of (count 1 (initial_state 2) 5 1 1))) = 2
   \<and> curr_line_num (cache (state_of (count 1
        \<lparr>cache = [\<lparr>lines = [\<lparr>valid_bit = 1, dirty_bit = 0, tag = 5\<rparr>], curr_line_num = 1\<rparr>],
         hit = 0, miss = 1, eviction = 0, dirty_count = 0, dirty_eviction = 0\<rparr> 5 0 1)) ! 0) = 1"
proof -
  let ?st = "\<lparr>cache = [\<lparr>lines = [\<lparr>valid_bit = 1, dirty_bit = 0, tag = 5\<rparr>], curr_line_num = 1\<rparr>],
         hit = 0, miss = 1, eviction = 0, dirty_count = 0, dirty_eviction = 0\<rparr>"
  have h: "hit (state_of (count 1 ?st 5 0 1)) \<noteq> hit ?st"
    by (simp add: count_def)
  show ?thesis
    using access_frame [of "state_of (count 1 (initial_state 2) 5 1 1)" 1 "initial_state 2" 5 1 1]
      access_frame [of "state_of (count 1 ?st 5 0 1)" 1 ?st 5 0 1] h
    by (simp add: initial_state_def)
qed

section \<open>Least recently used\<close>

text \<open>
  Claim C3. With associativity 2 and an empty set, accesses with pairwise distinct tags
  A, B, A, C to that set all go through; after the third the queue is A, B (the hit moved
  A to the head), and the fourth, a miss, evicts the tail B and leaves C, A. The dirty bit
  that decides the dirty eviction is the one B was given.
\<close>

theorem lru_evicts_least_recently_used:
  assumes "A \<noteq> B" and "A \<noteq> C" and "B \<noteq> C"
    and "unat i < length (cache st)"
    and "cache st ! unat i = \<lparr>lines = [], curr_line_num = 0\<rparr>"
  shows "\<exists>st1 st2 st3 st4.
           count 2 st A i d1 = Inr st1 \<and> count 2 st1 B i d2 = Inr st2
         \<and> count 2 st2 A i d3 = Inr st3 \<and> count 2 st3 C i d4 = Inr st4
         \<and> map tag (lines (cache st2 ! unat i)) = [B, A]
         \<and> map tag (lines (cache st3 ! unat i)) = [A, B]
         \<and> map tag (lines (cache st4 ! unat i)) = [C, A]
         \<and> hit st3 = hit st + 1 \<and> eviction st3 = eviction st
         \<and> miss st4 = miss st3 + 1 \<and> eviction st4 = eviction st3 + 1
         \<and> dirty_eviction st4 = (if d2 = 1 then dirty_eviction st3 + 1 else dirty_eviction st3)"
proof -
  let ?n = "unat i"
  define st1 where "st1 = st\<lparr>miss := miss st + 1, cache := (cache st)[?n :=
     \<lparr>lines = [\<lparr>valid_bit = 1, dirty_bit = d1, tag = A\<rparr>], curr_line_num = 1\<rparr>]\<rparr>"
  have c1: "count 2 st A i d1 = Inr st1"
    using assms(4,5) by (simp add: count_def Let_def insert_head_def st1_def set_upd)
  have q1: "?n < length (cache st1)"
    "cache st1 ! ?n = \<lparr>lines = [\<lparr>valid_bit = 1, dirty_bit = d1, tag = A\<rparr>], curr_line_num = 1\<rparr>"
    using assms(4) by (simp_all add: st1_def)
  define st2 where "st2 = st1\<lparr>miss := miss st1 + 1, cache := (cache st1)[?n :=
     \<lparr>lines = [\<lparr>valid_bit = 1, dirty_bit = d2, tag = B\<rparr>, \<lparr>valid_bit = 1, dirty_bit = d1, tag = A\<rparr>],
      curr_line_num = 2\<rparr>]\<rparr>"
  have c2: "count 2 st1 B i d2 = Inr st2"
    using q1 assms(1) by (simp add: count_def Let_def insert_head_def st2_def set_upd)
  have q2: "?n < length (cache st2)"
    "cache st2 ! ?n = \<lparr>lines = [\<lparr>valid_bit = 1, dirty_bit = d2, tag = B\<rparr>,
        \<lparr>valid_bit = 1, dirty_bit = d1, tag = A\<rparr>], curr_line_num = 2\<rparr>"
    using q1(1) by (simp_all add: st2_def)
  define lineA where "lineA = (if d3 = 1 then \<lparr>valid_bit = 1, dirty_bit = 1, tag = A\<rparr>
      else \<lparr>valid_bit = 1, dirty_bit = d1, tag = A\<rparr>)"
  define st3 where "st3 = st2\<lparr>hit := hit st2 + 1, cache := (cache st2)[?n :=
     \<lparr>lines = [lineA, \<lparr>valid_bit = 1, dirty_bit = d2, tag = B\<rparr>], curr_line_num = 2\<rparr>]\<rparr>"
  have c3: "count 2 st2 A i d3 = Inr st3"
    using q2 assms(1) by (simp add: count_def Let_def st3_def lineA_def set_upd)
  have tA: "tag lineA = A" "valid_bit lineA = 1" by (simp_all add: lineA_def)
  have q3: "?n < length (cache st3)"
    "cache st3 ! ?n = \<lparr>lines = [lineA, \<lparr>valid_bit = 1, dirty_bit = d2, tag = B\<rparr>], curr_line_num = 2\<rparr>"
    using q2(1) by (simp_all add: st3_def)
  define st4 where "st4 = st3\<lparr>miss := miss st3 + 1, eviction := eviction st3 + 1,
      dirty_eviction := (if d2 = 1 then dirty_eviction st3 + 1 else dirty_eviction st3),
      cache := (cache st3)[?n :=
     \<lparr>lines = [\<lparr>valid_bit = 1, dirty_bit = d4, tag = C\<rparr>, lineA], curr_line_num = 2\<rparr>]\<rparr>"
  have c4: "count 2 st3 C i d4 = Inr st4"
    using q3 assms(2,3) tA
    by (simp add: count_def Let_def insert_head_def evict_tail_def st4_def set_upd)
  have "map tag (lines (cache st2 ! ?n)) = [B, A]" using q2 by simp
  moreover have "map tag (lines (cache st3 ! ?n)) = [A, B]" using q3 tA by simp
  moreover have "map tag (lines (cache st4 ! ?n)) = [C, A]" using q3(1) tA by (simp add: st4_def)
  moreover have "hit st3 = hit st + 1" "eviction st3 = eviction st"
    by (simp_all add: st3_def st2_def st1_def)
  moreover have "miss st4 = miss st3 + 1" "eviction st4 = eviction st3 + 1"
    "dirty_eviction st4 = (if d2 = 1 then dirty_eviction st3 + 1 else dirty_eviction st3)"
    by (simp_all add: st4_def)
  ultimately show ?thesis using c1 c2 c3 c4
    by - (rule exI[of _ st1], rule exI[of _ st2], rule exI[of _ st3], rule exI[of _ st4], simp)
qed

theorem lru_evicts_least_recently_used_witness:
  "\<exists>st1 st2 st3 st4.
           count 2 (initial_state 2) 7 0 0 = Inr st1 \<and> count 2 st1 8 0 1 = Inr st2
         \<and> count 2 st2 7 0 0 = Inr st3 \<and> count 2 st3 9 0 0 = Inr st4
         \<and> map tag (lines (cache st2 ! unat (0::64 word))) = [8, 7]
         \<and> map tag (lines (cache st3 ! unat (0::64 word))) = [7, 8]
         \<and> map tag (lines (cache st4 ! unat (0::64 word))) = [9, 7]
         \<and> hit st3 = hit (initial_state 2) + 1 \<and> eviction st3 = eviction (initial_state 2)
         \<and> miss st4 = miss st3 + 1 \<and> eviction st4 = eviction st3 + 1
         \<and> dirty_eviction st4 = dirty_eviction st3 + 1"
  using lru_evicts_least_recently_used [of 7 8 9 0 "initial_state 2" 0 1 0 0]
  by (simp add: initial_state_def)

section \<open>Records that are neither loads nor stores\<close>

lemma step_other_operation:
  assumes "operation \<noteq> CHR ''L''" and "operation \<noteq> CHR ''S''"
    and "1 \<le> s" and "0 \<le> b" and "s + b \<le> 63"
  shows "step s b E st (operation, address, sz) = Inr st"
proof -
  have "curr_tag s b address = Some (drop_bit (nat s + nat b) address)"
    using assms(3,4,5) by (intro curr_tag_defined) simp_all
  moreover have "curr_set_num s b address = Some ((drop_bit (nat b) address) AND mask (nat s))"
    using assms(3,4,5) by (rule curr_set_num_defined)
  ultimately show ?thesis using assms(1,2) by (simp add: step_def)
qed

text \<open>
  Claim C9, as the code has it. In a geometry with s at least 1, b at least 0 and
  s + b at most 63, where the shifts that lines 230 and 231 execute for every record are
  defined, a trace record whose operation is neither \<^verbatim>\<open>L\<close> nor \<^verbatim>\<open>S\<close> leaves the state as
  it is, counters and cache alike, and raises no failure: the loop goes on with the rest
  of the trace from the same state.
\<close>

theorem other_operations_ignored:
  assumes "operation \<noteq> CHR ''L''" and "operation \<noteq> CHR ''S''"
    and "1 \<le> s" and "0 \<le> b" and "s + b \<le> 63"
  shows "step s b E st (operation, address, sz) = Inr st
       \<and> simulate s b E st ((operation, address, sz) # rest) = simulate s b E st rest"
  using step_other_operation[OF assms] by simp

theorem other_operations_ignored_witness:
  "step 1 1 1 (initial_state 2) (CHR ''M'', 0x10, 1) = Inr (initial_state 2)
   \<and> simulate 1 1 1 (initial_state 2) [(CHR ''M'', 0x10, 1)] = Inr (initial_state 2)"
  using other_operations_ignored [of "CHR ''M''" 1 1 1 "initial_state 2" "0x10" 1 "[]"]
  by simp

text \<open>
  With s = 0 and b = 1 the record \<^verbatim>\<open>M 11,1\<close> is decoded like any other: line 231 shifts
  by 64 bits before line 234 finds that the operation is neither a load nor a store.
\<close>

theorem other_operations_counterexample:
  "step 0 1 1 (initial_state 1) (CHR ''M'', 0x11, 1) = Inl (UndefinedShift, initial_state 1)
   \<and> main 0 1 1 [(CHR ''M'', 0x11, 1)] = Inl (UndefinedShift, initial_state 1)"
  by (simp add: main_def int_shl1_def step_def curr_tag_def curr_set_num_def shr_def shl_def
      tag_bits_def ADDRESS_BITS_def)

section \<open>Invalid geometry\<close>

lemma simulate_skip:
  assumes "\<forall>r\<in>set pre. fst r \<noteq> CHR ''L'' \<and> fst r \<noteq> CHR ''S''"
    and "1 \<le> s" and "0 \<le> b" and "s + b \<le> 63"
  shows "simulate s b E st (pre @ rest) = simulate s b E st rest"
  using assms(1)
proof (induction pre)
  case Nil
  then show ?case by simp
next
  case (Cons r pre)
  obtain operation address sz where r: "r = (operation, address, sz)" by (cases r) auto
  with Cons.prems have "step s b E st r = Inr st"
    using assms(2,3,4) by (simp add: step_other_operation)
  with Cons show ?case by simp
qed

lemma int_shl1_defined: "0 \<le> n \<Longrightarrow> n \<le> 30 \<Longrightarrow> int_shl1 n = Some (2 ^ nat n)"
  by (simp add: int_shl1_def)

lemma initial_state_length: "length (cache (initial_state (2 ^ n))) = 2 ^ n"
  by (simp add: initial_state_def)

lemma initial_state_nth:
  "i < 2 ^ n \<Longrightarrow> cache (initial_state (2 ^ n)) ! i = \<lparr>lines = [], curr_line_num = 0\<rparr>"
  by (simp add: initial_state_def nat_power_eq)

lemma main_defined:
  assumes "0 \<le> s" and "s \<le> 30" and "0 \<le> b" and "b \<le> 30"
  shows "main s E b trace =
      (case simulate s b E (initial_state (2 ^ nat s)) trace of
         Inl e \<Rightarrow> Inl e | Inr st \<Rightarrow> summary (2 ^ nat b) (free_cache (2 ^ nat s) st))"
  using assms by (simp add: main_def int_shl1_defined)

text \<open>
  Claim C5, as the code has it. \<^verbatim>\<open>main\<close> checks neither \<open>E\<close> nor \<open>s + b\<close> and has no
  configuration error to report.
  \<^item> With \<open>E \<le> 0\<close>, \<open>1 \<le> s \<le> 30\<close> and \<open>0 \<le> b \<le> 30\<close> (so that lines 211, 212, 230 and 231
    are defined), take a trace whose first load or store comes after records of other
    operations only. That first load or store counts a miss and an eviction and then
    dereferences a null pointer (line 129): the run (its allocations having succeeded)
    stops there, with the two counters at 1 and before any summary.
  \<^item> With \<open>s + b > 64\<close> one of s and b is above 30, so \<^verbatim>\<open>1 << s\<close> on line 211 or \<^verbatim>\<open>1 << b\<close>
    on line 212 is undefined: whatever the trace, the run has no defined behaviour from
    there on, before the cache is created and before any record is read.
\<close>

theorem no_geometry_check:
  assumes skipped: "\<forall>r\<in>set pre. fst r \<noteq> CHR ''L'' \<and> fst r \<noteq> CHR ''S''"
    and op: "operation = CHR ''L'' \<or> operation = CHR ''S''"
  shows "(E \<le> 0 \<and> 1 \<le> s \<and> s \<le> 30 \<and> 0 \<le> b \<and> b \<le> 30 \<longrightarrow>
           main s E b (pre @ (operation, address, sz) # rest) =
             Inl (NullDeref, (initial_state (2 ^ nat s))\<lparr>miss := 1, eviction := 1\<rparr>))
       \<and> (64 < s + b \<longrightarrow> main s E b trace = Inl (UndefinedShift, initial_state 0))"
proof (intro conjI impI)
  let ?st = "initial_state (2 ^ nat s)"
  let ?tr = "pre @ (operation, address, sz) # rest"
  assume "E \<le> 0 \<and> 1 \<le> s \<and> s \<le> 30 \<and> 0 \<le> b \<and> b \<le> 30"
  then have E: "E \<le> 0" and s: "1 \<le> s" "s \<le> 30" and b: "0 \<le> b" "b \<le> 30" by simp_all
  have g: "s + b \<le> 63" using s b by simp
  have m: "main s E b ?tr =
      (case simulate s b E ?st ((operation, address, sz) # rest) of
         Inl e \<Rightarrow> Inl e | Inr st \<Rightarrow> summary (2 ^ nat b) (free_cache (2 ^ nat s) st))"
    using s b g by (simp add: main_defined simulate_skip[OF skipped])
  let ?sn = "(drop_bit (nat b) address) AND mask (nat s)"
  have tg: "curr_tag s b address = Some (drop_bit (nat s + nat b) address)"
    using s b g by (intro curr_tag_defined) simp_all
  have sn: "curr_set_num s b address = Some ?sn"
    using s b g by (intro curr_set_num_defined) simp_all
  have i: "unat ?sn < 2 ^ nat s" by (rule set_index_in_range)
  have "count E ?st (drop_bit (nat s + nat b) address) ?sn d =
      Inl (NullDeref, ?st\<lparr>miss := miss ?st + 1, eviction := eviction ?st + 1\<rparr>)" for d
    using i E by (intro count_null_deref) (simp_all add: initial_state_length initial_state_nth)
  then have "step s b E ?st (operation, address, sz) =
      Inl (NullDeref, ?st\<lparr>miss := 1, eviction := 1\<rparr>)"
    using op tg sn by (auto simp add: step_def initial_state_def)
  then show "main s E b ?tr = Inl (NullDeref, ?st\<lparr>miss := 1, eviction := 1\<rparr>)"
    using m by simp
next
  assume "64 < s + b"
  then have "30 < s \<or> 30 < b" by linarith
  then have "int_shl1 s = None \<or> int_shl1 b = None" by (auto simp: int_shl1_def)
  then show "main s E b trace = Inl (UndefinedShift, initial_state 0)"
    by (auto simp: main_def split: option.splits)
qed

theorem no_geometry_check_witness:
  "main 2 (-1) 3 [(CHR ''M'', 0x20, 4), (CHR ''S'', 0x40, 1), (CHR ''L'', 0x40, 1)] =
     Inl (NullDeref, (initial_state 4)\<lparr>miss := 1, eviction := 1\<rparr>)
   \<and> main 5 1 60 [(CHR ''L'', 0x10, 1)] = Inl (UndefinedShift, initial_state 0)"
  using no_geometry_check [where pre = "[(CHR ''M'', 0x20, 4)]" and operation = "CHR ''S''"
      and E = "-1" and s = 2 and b = 3 and address = "0x40" and sz = 1
      and rest = "[(CHR ''L'', 0x40, 1)]", THEN conjunct1]
    no_geometry_check [where pre = "[]" and operation = "CHR ''L''"
      and E = 1 and s = 5 and b = 60 and trace = "[(CHR ''L'', 0x10, 1)]", THEN conjunct2]
  by simp

text \<open>
  With s = 1, E = 0, b = 1 and the single record \<^verbatim>\<open>L 10,1\<close> the run ends in a null
  dereference inside \<^verbatim>\<open>count\<close>, after \<^verbatim>\<open>miss\<close> and \<^verbatim>\<open>eviction\<close> were incremented.
\<close>

theorem invalid_associativity_counterexample:
  "main 1 0 1 [(CHR ''L'', 0x10, 1)] =
     Inl (NullDeref, \<lparr>cache = [\<lparr>lines = [], curr_line_num = 0\<rparr>, \<lparr>lines = [], curr_line_num = 0\<rparr>],
        hit = 0, miss = 1, eviction = 1, dirty_count = 0, dirty_eviction = 0\<rparr>)"
  by code_simp

section \<open>Dirty lines\<close>

lemma search_find:
  "find (holds_tag ctag) ls = Some l \<Longrightarrow>
   \<exists>r. search ctag d passed ls = Some ((if d = 1 then l\<lparr>dirty_bit := 1\<rparr> else l) # r)"
  by (induction ls arbitrary: passed) (auto simp: holds_tag_def split: if_splits)

lemma dirty_line_marked_again: "dirty_bit l = 1 \<Longrightarrow> l\<lparr>dirty_bit := 1\<rparr> = (l::cache_line)"
  by (cases l) simp

lemma count_hit_head:
  assumes i: "unat cset < length (cache st)"
    and f: "find (holds_tag ctag) (lines (cache st ! unat cset)) = Some l"
  shows "\<exists>st'. count E st ctag cset d = Inr st'
          \<and> length (cache st') = length (cache st)
          \<and> hd (lines (cache st' ! unat cset)) = (if d = 1 then l\<lparr>dirty_bit := 1\<rparr> else l)
          \<and> holds_tag ctag (hd (lines (cache st' ! unat cset)))
          \<and> lines (cache st' ! unat cset) \<noteq> []"
proof -
  from search_find[OF f] obtain r where
    r: "search ctag d [] (lines (cache st ! unat cset)) = Some ((if d = 1 then l\<lparr>dirty_bit := 1\<rparr> else l) # r)"
    by blast
  from f have "holds_tag ctag l" by (auto simp: find_Some_iff)
  then have "holds_tag ctag (if d = 1 then l\<lparr>dirty_bit := 1\<rparr> else l)" by (simp add: holds_tag_def)
  then show ?thesis using count_hit[OF i r, of E] i by simp
qed

lemma find_head: "ls \<noteq> [] \<Longrightarrow> P (hd ls) \<Longrightarrow> find P ls = Some (hd ls)"
  by (cases ls) simp_all

lemma count_dirty_stays:
  assumes c: "count E st ctag cset d = Inr st'"
    and j: "j < length (cache st)"
    and x: "x \<in> set (lines (cache st ! j))" "dirty_bit x = 1"
  shows "x \<in> set (lines (cache st' ! j))
       \<or> (j = unat cset \<and> x = last (lines (cache st ! j))
          \<and> eviction st' = eviction st + 1 \<and> dirty_eviction st' = dirty_eviction st + 1)"
proof (cases rule: count_cases[where E=E and st=st and ctag=ctag and cset=cset and d=d])
  case out_of_bounds
  then show ?thesis using c by simp
next
  case (hit ls)
  from search_Some[OF hit(2)] obtain pre l post where
    h: "lines (cache st ! unat cset) = pre @ l # post"
       "ls = (if d = 1 then l\<lparr>dirty_bit := 1\<rparr> else l) # [] @ pre @ post" by blast
  have "x \<in> set ls" if "j = unat cset"
  proof (cases "x = l")
    case True
    then show ?thesis using h(2) x(2) by (simp add: dirty_line_marked_again)
  next
    case False
    then show ?thesis using h x(1) that by auto
  qed
  then show ?thesis using c hit(1,3) x(1) by (cases "j = unat cset") auto
next
  case miss_room
  then show ?thesis using c x(1) by (cases "j = unat cset") auto
next
  case miss_full
  from miss_full(4) have ls: "lines (cache st ! unat cset) =
      butlast (lines (cache st ! unat cset)) @ [last (lines (cache st ! unat cset))]" by simp
  show ?thesis
  proof (cases "j = unat cset")
    case True
    have "set (butlast (lines (cache st ! unat cset))) \<union> set [last (lines (cache st ! unat cset))]
        = set (lines (cache st ! unat cset))"
      using miss_full(4) by (metis append_butlast_last_id set_append)
    with x(1) True
    have "x \<in> set (butlast (lines (cache st ! unat cset))) \<or> x = last (lines (cache st ! unat cset))"
      by auto
    then show ?thesis
    proof
      assume "x \<in> set (butlast (lines (cache st ! unat cset)))"
      then show ?thesis using c miss_full(1,6) True by auto
    next
      assume "x = last (lines (cache st ! unat cset))"
      then show ?thesis using c miss_full(6) True x(2) by auto
    qed
  next
    case False
    then show ?thesis using c miss_full(6) x(1) by auto
  qed
next
  case null_deref
  then show ?thesis using c by simp
next
  case use_after_free
  then show ?thesis using c by simp
qed

section \<open>The counters and the final sweep\<close>

lemma free_queue_eq: "free_queue ls dc = dc + int (length (filter (\<lambda>l. dirty_bit l = 1) ls))"
  by (induction ls arbitrary: dc) simp_all

lemma free_sets_eq: "free_sets qs dc = dc + int (resident_dirty qs)"
  by (induction qs arbitrary: dc) (simp_all add: resident_dirty_def free_queue_eq)

lemma resident_dirty_le: "resident_dirty qs \<le> resident_lines qs"
  unfolding resident_dirty_def resident_lines_def
  by (induction qs) (simp_all add: add_mono)

lemma resident_lines_update:
  "i < length qs \<Longrightarrow>
   resident_lines (qs[i := q]) + length (lines (qs ! i)) = resident_lines qs + length (lines q)"
  unfolding resident_lines_def
proof (induction qs arbitrary: i)
  case Nil
  then show ?case by simp
next
  case (Cons a qs)
  then show ?case by (cases i) (simp_all add: algebra_simps)
qed

lemma count_bounded:
  assumes c: "count E st ctag cset d = Inr st'" and b: "bounded n st"
  shows "bounded (Suc n) st'"
proof (cases rule: count_cases[where E=E and st=st and ctag=ctag and cset=cset and d=d])
  case out_of_bounds
  then show ?thesis using c by simp
next
  case (hit ls)
  let ?q = "\<lparr>lines = ls, curr_line_num = curr_line_num (cache st ! unat cset)\<rparr>"
  have e: "st' = st\<lparr>hit := hit st + 1, cache := (cache st)[unat cset := ?q]\<rparr>"
    using c hit(3) by simp
  from search_length[OF hit(2)] have "length ls = length (lines (cache st ! unat cset))" by simp
  with resident_lines_update[OF hit(1), of ?q]
  have "resident_lines ((cache st)[unat cset := ?q]) = resident_lines (cache st)" by simp
  then show ?thesis unfolding e using b by (simp add: bounded_def)
next
  case miss_room
  let ?q = "\<lparr>lines = \<lparr>valid_bit = 1, dirty_bit = d, tag = ctag\<rparr> # lines (cache st ! unat cset),
            curr_line_num = curr_line_num (cache st ! unat cset) + 1\<rparr>"
  have e: "st' = st\<lparr>miss := miss st + 1, cache := (cache st)[unat cset := ?q]\<rparr>"
    using c miss_room(4) by simp
  from resident_lines_update[OF miss_room(1), of ?q]
  have "resident_lines ((cache st)[unat cset := ?q]) = resident_lines (cache st) + 1" by simp
  then show ?thesis unfolding e using b by (simp add: bounded_def)
next
  case miss_full
  let ?q = "\<lparr>lines = \<lparr>valid_bit = 1, dirty_bit = d, tag = ctag\<rparr> # butlast (lines (cache st ! unat cset)),
              curr_line_num = curr_line_num (cache st ! unat cset) - 1 + 1\<rparr>"
  have e: "st' = st\<lparr>miss := miss st + 1, eviction := eviction st + 1,
          dirty_eviction := (if dirty_bit (last (lines (cache st ! unat cset))) = 1
                             then dirty_eviction st + 1 else dirty_eviction st),
          cache := (cache st)[unat cset := ?q]\<rparr>"
    using c miss_full(6) by simp
  from miss_full(4) have "length (butlast (lines (cache st ! unat cset))) + 1 = length (lines (cache st ! unat cset))"
    by (cases "lines (cache st ! unat cset)") simp_all
  with resident_lines_update[OF miss_full(1), of ?q]
  have "resident_lines ((cache st)[unat cset := ?q]) = resident_lines (cache st)" by simp
  then show ?thesis unfolding e using b by (simp add: bounded_def)
next
  case null_deref
  then show ?thesis using c by simp
next
  case use_after_free
  then show ?thesis using c by simp
qed

lemma bounded_Suc: "bounded n st \<Longrightarrow> bounded (Suc n) st"
  by (simp add: bounded_def)

lemma step_bounded:
  assumes "step s b E st r = Inr st'" and "bounded n st"
  shows "bounded (Suc n) st'"
proof (cases rule: step_cases[of s b E st r])
  case 1
  then show ?thesis using assms by (simp add: bounded_Suc)
next
  case 2
  then show ?thesis using assms by simp
next
  case (3 ctag cset d)
  with assms(1) have "count E st ctag cset d = Inr st'" by simp
  then show ?thesis using assms(2) by (rule count_bounded)
qed

lemma simulate_bounded:
  assumes "simulate s b E st trace = Inr st'" and "bounded n st"
  shows "bounded (n + length trace) st'"
  using assms
proof (induction trace arbitrary: st n)
  case Nil
  then show ?case by simp
next
  case (Cons r rs)
  from Cons.prems(1) obtain st1 where
    st1: "step s b E st r = Inr st1" "simulate s b E st1 rs = Inr st'"
    by (auto split: sum.splits)
  from step_bounded[OF st1(1) Cons.prems(2)] have "bounded (Suc n) st1" .
  from Cons.IH[OF st1(2) this] show ?case by simp
qed

lemma simulate_length: "length (cache (state_of (simulate s b E st trace))) = length (cache st)"
proof (rule simulate_invariant[where P = "\<lambda>x. length (cache x) = length (cache st)"])
  show "length (cache st) = length (cache st)" ..
  show "length (cache (state_of (count E x ctag cset d))) = length (cache st)"
    if "length (cache x) = length (cache st)" for x ctag cset d
    using that by (simp only: count_length)
qed

lemma step_total:
  assumes E: "1 \<le> E" and g: "1 \<le> s" "0 \<le> b" "s + b \<le> 63"
    and inv: "\<forall>q\<in>set (cache st). counted q"
    and len: "length (cache st) = 2 ^ nat s"
  shows "\<exists>st'. step s b E st r = Inr st'"
proof -
  obtain operation address sz where r: "r = (operation, address, sz)" by (cases r) auto
  let ?tg = "drop_bit (nat s + nat b) address"
  let ?sn = "(drop_bit (nat b) address) AND mask (nat s)"
  have tg: "curr_tag s b address = Some ?tg"
    using g by (intro curr_tag_defined) simp_all
  have sn: "curr_set_num s b address = Some ?sn"
    using g by (intro curr_set_num_defined) simp_all
  have i: "unat ?sn < length (cache st)" using len set_index_in_range[of _ "nat s"] by simp
  have "\<exists>st'. count E st ?tg ?sn d = Inr st'" for d
    using E inv i by (rule count_total)
  then show ?thesis
    using tg sn by (auto simp add: r step_def)
qed

lemma simulate_total:
  assumes E: "1 \<le> E" and g: "1 \<le> s" "0 \<le> b" "s + b \<le> 63"
    and inv: "\<forall>q\<in>set (cache st). counted q \<and> within_capacity E q"
    and len: "length (cache st) = 2 ^ nat s"
  shows "\<exists>st'. simulate s b E st trace = Inr st'"
  using inv len
proof (induction trace arbitrary: st)
  case Nil
  then show ?case by simp
next
  case (Cons r rs)
  from step_total[OF E g, of st r] Cons.prems obtain st1 where st1: "step s b E st r = Inr st1"
    by auto
  have "\<forall>q\<in>set (cache (state_of (step s b E st r))). counted q \<and> within_capacity E q"
  proof (rule step_invariant[where P = "\<lambda>x. \<forall>q\<in>set (cache x). counted q \<and> within_capacity E q"])
    show "\<forall>q\<in>set (cache st). counted q \<and> within_capacity E q" by (rule Cons.prems(1))
    show "\<forall>q\<in>set (cache (state_of (count E st ctag cset d))). counted q \<and> within_capacity E q"
      for ctag cset d
      using E Cons.prems(1) by (rule count_capacity)
  qed
  then have i1: "\<forall>q\<in>set (cache st1). counted q \<and> within_capacity E q" using st1 by simp
  have "length (cache (state_of (step s b E st r))) = length (cache st)"
  proof (rule step_invariant[where P = "\<lambda>x. length (cache x) = length (cache st)"])
    show "length (cache st) = length (cache st)" ..
    show "length (cache (state_of (count E st ctag cset d))) = length (cache st)" for ctag cset d
      by (rule count_length)
  qed
  then have l1: "length (cache st1) = 2 ^ nat s" using st1 Cons.prems(2) by simp
  from Cons.IH[OF i1 l1] st1 show ?case by simp
qed

lemma count_dirty_count: "dirty_count (state_of (count E st ctag cset d)) = dirty_count st"
  by (cases rule: count_cases[where E=E and st=st and ctag=ctag and cset=cset and d=d]) simp_all

lemma simulate_dirty_count:
  "dirty_count (state_of (simulate s b E st trace)) = dirty_count st"
proof (rule simulate_invariant[where P = "\<lambda>x. dirty_count x = dirty_count st"])
  show "dirty_count st = dirty_count st" ..
  show "dirty_count (state_of (count E x ctag cset d)) = dirty_count st"
    if "dirty_count x = dirty_count st" for x ctag cset d
    using that by (simp only: count_dirty_count)
qed

lemma unat_small_product:
  assumes "int m * 2 ^ k < 2 ^ 31"
  shows "unat (word_of_int (int m * 2 ^ k) :: 64 word) = m * 2 ^ k"
proof -
  have "int (m * 2 ^ k) < int (2 ^ 31)" using assms by simp
  then have "m * 2 ^ k < 2 ^ 31" by (simp only: of_nat_less_iff)
  then have lt: "m * 2 ^ k < 2 ^ 64" by simp
  have "(word_of_int (int m * 2 ^ k) :: 64 word) = word_of_nat (m * 2 ^ k)" by simp
  then show ?thesis using lt by (simp add: unat_of_nat del: of_nat_mult of_nat_power)
qed

lemma initial_bounded: "bounded 0 (initial_state S)"
  by (simp add: bounded_def initial_state_def resident_lines_def)

lemma fits_int:
  assumes "0 \<le> c" and "c \<le> N" and "N * 2 ^ k < (2::int) ^ 31"
  shows "int_ok c" and "int_ok (c * 2 ^ k)"
proof -
  have p: "(1::int) \<le> 2 ^ k" by simp
  have "c * 2 ^ k \<le> N * 2 ^ k" using assms(2) by (simp add: mult_right_mono)
  then have a: "c * 2 ^ k < 2 ^ 31" using assms(3) by linarith
  have b: "0 \<le> c * 2 ^ k" using assms(1) by simp
  have "c * 1 \<le> c * 2 ^ k" using assms(1) p by (intro mult_left_mono) simp_all
  then have c: "c < 2 ^ 31" using a by simp
  show "int_ok c" using assms(1) c by (simp add: int_ok_def)
  show "int_ok (c * 2 ^ k)" unfolding int_ok_def using a b by linarith
qed

lemma free_cache_dirty_count:
  assumes "length (cache st) = nat S"
  shows "dirty_count (free_cache S st) = dirty_count st + int (resident_dirty (cache st))"
  using assms by (simp add: free_cache_def free_sets_eq)

lemma unat_bytes:
  assumes "0 \<le> d" and "d * 2 ^ k < 2 ^ 31"
  shows "unat (word_of_int (d * 2 ^ k) :: 64 word) = nat d * 2 ^ k"
  using unat_small_product[of "nat d" k] assms by simp

lemma bytes_fits:
  assumes "0 \<le> c" and "c \<le> N" and "N * 2 ^ k < (2::int) ^ 31"
  shows "bytes c (2 ^ k) = Inr (word_of_int (c * 2 ^ k))"
  using fits_int(2)[OF assms] by (simp add: bytes_def)

text \<open>
  The report of a run within the range of \<^verbatim>\<open>int\<close>: the loop goes through and every field
  is the cast of its counter, the two byte fields of the counter times \<open>2 ^ b\<close>.
\<close>

lemma main_report:
  assumes E: "1 \<le> E" and s: "1 \<le> s" "s \<le> 30" and b: "0 \<le> b" "b \<le> 30"
    and N: "int (length trace) * 2 ^ nat b < 2 ^ 31"
  shows "\<exists>fin. simulate s b E (initial_state (2 ^ nat s)) trace = Inr fin
          \<and> bounded (length trace) fin
          \<and> length (cache fin) = 2 ^ nat s
          \<and> main s E b trace =
              Inr \<lparr>hits = word_of_int (hit fin), misses = word_of_int (miss fin),
                   evictions = word_of_int (eviction fin),
                   dirty_bytes = word_of_int (int (resident_dirty (cache fin)) * 2 ^ nat b),
                   dirty_evictions = word_of_int (dirty_eviction fin * 2 ^ nat b)\<rparr>"
proof -
  let ?S = "(2::int) ^ nat s"
  let ?N = "int (length trace)"
  have sb: "s + b \<le> 63" using s b by simp
  have inv0: "\<forall>q\<in>set (cache (initial_state ?S)). counted q \<and> within_capacity E q"
    using E by (auto dest!: initial_state_sets simp: counted_def within_capacity_def)
  have len0: "length (cache (initial_state ?S)) = 2 ^ nat s"
    by (rule initial_state_length)
  from simulate_total[OF E s(1) b(1) sb inv0 len0, of trace] obtain fin where
    fin: "simulate s b E (initial_state ?S) trace = Inr fin" by blast
  from simulate_bounded[OF fin initial_bounded]
  have bd: "bounded (length trace) fin" by simp
  have len: "length (cache fin) = nat ?S"
    using simulate_length[of s b E "initial_state ?S" trace] fin
    by (simp add: initial_state_def)
  then have len': "length (cache fin) = 2 ^ nat s" by (simp add: nat_power_eq)
  let ?st = "free_cache ?S fin"
  have dcount: "dirty_count ?st = int (resident_dirty (cache fin))"
    using free_cache_dirty_count[OF len] bd by (simp add: bounded_def)
  have "int (resident_dirty (cache fin)) \<le> int (resident_lines (cache fin))"
    using resident_dirty_le[of "cache fin"] by simp
  with bd have d: "0 \<le> dirty_count ?st" "dirty_count ?st \<le> ?N"
    unfolding dcount bounded_def by linarith+
  have same: "hit ?st = hit fin" "miss ?st = miss fin" "eviction ?st = eviction fin"
    "dirty_eviction ?st = dirty_eviction fin" by (simp_all add: free_cache_def)
  have c: "0 \<le> hit ?st" "hit ?st \<le> ?N" "0 \<le> miss ?st" "miss ?st \<le> ?N"
       "0 \<le> eviction ?st" "eviction ?st \<le> ?N" "0 \<le> dirty_eviction ?st" "dirty_eviction ?st \<le> ?N"
    using bd unfolding same bounded_def by linarith+
  note f = fits_int(1)[OF _ _ N]
  have ok: "int_ok (hit ?st)" "int_ok (miss ?st)" "int_ok (eviction ?st)"
    "int_ok (dirty_eviction ?st)" "int_ok (dirty_count ?st)"
    using c d by (simp_all add: f)
  have de: "bytes (dirty_eviction ?st) (2 ^ nat b) = Inr (word_of_int (dirty_eviction ?st * 2 ^ nat b))"
    using c(7,8) N by (rule bytes_fits)
  have db: "bytes (dirty_count ?st) (2 ^ nat b) = Inr (word_of_int (dirty_count ?st * 2 ^ nat b))"
    using d N by (rule bytes_fits)
  have "summary (2 ^ nat b) ?st =
      Inr \<lparr>hits = word_of_int (hit ?st), misses = word_of_int (miss ?st),
           evictions = word_of_int (eviction ?st),
           dirty_bytes = word_of_int (dirty_count ?st * 2 ^ nat b),
           dirty_evictions = word_of_int (dirty_eviction ?st * 2 ^ nat b)\<rparr>"
    using ok de db by (simp add: summary_def)
  then have "main s E b trace =
      Inr \<lparr>hits = word_of_int (hit fin), misses = word_of_int (miss fin),
           evictions = word_of_int (eviction fin),
           dirty_bytes = word_of_int (int (resident_dirty (cache fin)) * 2 ^ nat b),
           dirty_evictions = word_of_int (dirty_eviction fin * 2 ^ nat b)\<rparr>"
    using s b fin unfolding same dcount by (simp add: main_defined)
  with fin bd len' show ?thesis by blast
qed

lemma simulate_append:
  "simulate s b E st (tr @ [r]) =
     (case simulate s b E st tr of Inl e \<Rightarrow> Inl e | Inr fin \<Rightarrow> step s b E fin r)"
  by (induction tr arbitrary: st) (auto split: sum.splits)

section \<open>Dirty propagation\<close>

lemma step_dirty_stays:
  assumes c: "step s b E st r = Inr st'"
    and j: "j < length (cache st)"
    and x: "x \<in> set (lines (cache st ! j))" "dirty_bit x = 1" "x \<notin> set (lines (cache st' ! j))"
  shows "dirty_eviction st' = dirty_eviction st + 1"
proof (cases rule: step_cases[of s b E st r])
  case 1
  with c have "st' = st" by simp
  with x(1,3) show ?thesis by simp
next
  case 2
  with c show ?thesis by simp
next
  case (3 ctag cset d)
  with c have "count E st ctag cset d = Inr st'" by simp
  from count_dirty_stays[OF this j x(1,2)] x(3) show ?thesis by simp
qed

text \<open>
  Claim C6, as the code has it. In a set of the cache:
  \<^item> a store that hits the line \<open>l\<close> (the first valid line with the tag) puts it at the
    head with its dirty bit 1, and a load that hits it next leaves that line, dirty bit
    included, at the head;
  \<^item> whatever an access does, a line of any set whose dirty bit is 1 is in that set
    afterwards, unchanged, unless it was the tail of the accessed set and this access
    evicted it, and then \<^verbatim>\<open>eviction\<close> and \<^verbatim>\<open>dirty_eviction\<close> each grew by exactly 1;
  \<^item> for \<open>E \<ge> 1\<close>, \<open>1 \<le> s \<le> 30\<close>, \<open>0 \<le> b \<le> 30\<close>, a trace and one more record such that
    the number of records times \<open>2 ^ b\<close> stays below \<open>2 ^ 31\<close>: \<^verbatim>\<open>main\<close> (its allocations
    succeeding) yields its report for the trace and for the trace with the record
    appended, the field
    \<^verbatim>\<open>dirty_evictions\<close> of each report is \<^verbatim>\<open>dirty_eviction\<close> times \<open>2 ^ b\<close>, and if the
    record made a line with dirty bit 1 leave its set, the second report has exactly
    \<open>2 ^ b\<close> more in that field than the first.
\<close>

theorem dirty_propagation:
  assumes i: "unat cset < length (cache st)"
  shows "(find (holds_tag ctag) (lines (cache st ! unat cset)) = Some l \<longrightarrow>
           (\<exists>st1 st2. count E st ctag cset 1 = Inr st1
              \<and> hd (lines (cache st1 ! unat cset)) = l\<lparr>dirty_bit := 1\<rparr>
              \<and> count E st1 ctag cset 0 = Inr st2
              \<and> hd (lines (cache st2 ! unat cset)) = l\<lparr>dirty_bit := 1\<rparr>))
       \<and> (\<forall>st' j x. count E st ctag cset d = Inr st' \<and> j < length (cache st)
              \<and> x \<in> set (lines (cache st ! j)) \<and> dirty_bit x = 1 \<longrightarrow>
             x \<in> set (lines (cache st' ! j))
             \<or> (j = unat cset \<and> x = last (lines (cache st ! j))
                \<and> eviction st' = eviction st + 1 \<and> dirty_eviction st' = dirty_eviction st + 1))
       \<and> (1 \<le> E \<and> 1 \<le> s \<and> s \<le> 30 \<and> 0 \<le> b \<and> b \<le> 30
              \<and> (int (length trace) + 1) * 2 ^ nat b < 2 ^ 31 \<longrightarrow>
             (\<exists>fin fin' stats stats'.
                  simulate s b E (initial_state (2 ^ nat s)) trace = Inr fin
                \<and> step s b E fin r = Inr fin'
                \<and> main s E b trace = Inr stats
                \<and> main s E b (trace @ [r]) = Inr stats'
                \<and> unat (dirty_evictions stats) = nat (dirty_eviction fin) * 2 ^ nat b
                \<and> unat (dirty_evictions stats') = nat (dirty_eviction fin') * 2 ^ nat b
                \<and> (\<forall>j x. j < length (cache fin) \<and> x \<in> set (lines (cache fin ! j))
                       \<and> dirty_bit x = 1 \<and> x \<notin> set (lines (cache fin' ! j)) \<longrightarrow>
                     unat (dirty_evictions stats') = unat (dirty_evictions stats) + 2 ^ nat b)))"
proof (intro conjI impI allI)
  assume f: "find (holds_tag ctag) (lines (cache st ! unat cset)) = Some l"
  from count_hit_head[OF i f, of E 1] obtain st1 where
    s1: "count E st ctag cset 1 = Inr st1" "length (cache st1) = length (cache st)"
        "hd (lines (cache st1 ! unat cset)) = l\<lparr>dirty_bit := 1\<rparr>"
        "holds_tag ctag (hd (lines (cache st1 ! unat cset)))"
        "lines (cache st1 ! unat cset) \<noteq> []" by auto
  have i1: "unat cset < length (cache st1)" using i s1(2) by simp
  have f1: "find (holds_tag ctag) (lines (cache st1 ! unat cset)) = Some (l\<lparr>dirty_bit := 1\<rparr>)"
    using find_head[OF s1(5), of "holds_tag ctag"] s1(3,4) by simp
  from count_hit_head[OF i1 f1, of E 0] obtain st2 where
    s2: "count E st1 ctag cset 0 = Inr st2"
        "hd (lines (cache st2 ! unat cset)) = l\<lparr>dirty_bit := 1\<rparr>" by auto
  show "\<exists>st1 st2. count E st ctag cset 1 = Inr st1
              \<and> hd (lines (cache st1 ! unat cset)) = l\<lparr>dirty_bit := 1\<rparr>
              \<and> count E st1 ctag cset 0 = Inr st2
              \<and> hd (lines (cache st2 ! unat cset)) = l\<lparr>dirty_bit := 1\<rparr>"
    using s1(1,3) s2 by blast
next
  fix st' j x
  assume "count E st ctag cset d = Inr st' \<and> j < length (cache st)
              \<and> x \<in> set (lines (cache st ! j)) \<and> dirty_bit x = 1"
  then show "x \<in> set (lines (cache st' ! j))
             \<or> (j = unat cset \<and> x = last (lines (cache st ! j))
                \<and> eviction st' = eviction st + 1 \<and> dirty_eviction st' = dirty_eviction st + 1)"
    using count_dirty_stays[of E st ctag cset d st' j x] by blast
next
  let ?B = "(2::int) ^ nat b"
  assume "1 \<le> E \<and> 1 \<le> s \<and> s \<le> 30 \<and> 0 \<le> b \<and> b \<le> 30
              \<and> (int (length trace) + 1) * 2 ^ nat b < 2 ^ 31"
  then have E: "1 \<le> E" and s: "1 \<le> s" "s \<le> 30" and b: "0 \<le> b" "b \<le> 30"
    and N': "(int (length trace) + 1) * ?B < 2 ^ 31" by simp_all
  have "(int (length trace) + 1) * ?B = int (length trace) * ?B + ?B"
    by (simp add: distrib_right)
  moreover have "0 \<le> ?B" by simp
  ultimately have N: "int (length trace) * ?B < 2 ^ 31" using N' by linarith
  have N2: "int (length (trace @ [r])) * ?B < 2 ^ 31" using N' by (simp add: add.commute)
  from main_report[OF E s b N] obtain fin where
    fin: "simulate s b E (initial_state (2 ^ nat s)) trace = Inr fin"
      "bounded (length trace) fin"
      "main s E b trace =
         Inr \<lparr>hits = word_of_int (hit fin), misses = word_of_int (miss fin),
              evictions = word_of_int (eviction fin),
              dirty_bytes = word_of_int (int (resident_dirty (cache fin)) * ?B),
              dirty_evictions = word_of_int (dirty_eviction fin * ?B)\<rparr>" by blast
  from main_report[OF E s b N2] obtain fin' where
    fin': "simulate s b E (initial_state (2 ^ nat s)) (trace @ [r]) = Inr fin'"
      "bounded (length (trace @ [r])) fin'"
      "main s E b (trace @ [r]) =
         Inr \<lparr>hits = word_of_int (hit fin'), misses = word_of_int (miss fin'),
              evictions = word_of_int (eviction fin'),
              dirty_bytes = word_of_int (int (resident_dirty (cache fin')) * ?B),
              dirty_evictions = word_of_int (dirty_eviction fin' * ?B)\<rparr>" by blast
  let ?stats = "\<lparr>hits = word_of_int (hit fin), misses = word_of_int (miss fin),
              evictions = word_of_int (eviction fin),
              dirty_bytes = word_of_int (int (resident_dirty (cache fin)) * ?B),
              dirty_evictions = word_of_int (dirty_eviction fin * ?B)\<rparr>"
  let ?stats' = "\<lparr>hits = word_of_int (hit fin'), misses = word_of_int (miss fin'),
              evictions = word_of_int (eviction fin'),
              dirty_bytes = word_of_int (int (resident_dirty (cache fin')) * ?B),
              dirty_evictions = word_of_int (dirty_eviction fin' * ?B)\<rparr>"
  have st: "step s b E fin r = Inr fin'"
    using fin'(1) fin(1) by (simp add: simulate_append)
  have d0: "0 \<le> dirty_eviction fin" "dirty_eviction fin \<le> int (length trace)"
    using fin(2) unfolding bounded_def by linarith+
  have d1: "0 \<le> dirty_eviction fin'" "dirty_eviction fin' \<le> int (length (trace @ [r]))"
    using fin'(2) unfolding bounded_def by linarith+
  have "dirty_eviction fin * ?B \<le> int (length trace) * ?B"
    using d0(2) by (simp add: mult_right_mono)
  with N have "dirty_eviction fin * ?B < 2 ^ 31" by linarith
  from unat_bytes[OF d0(1) this]
  have u: "unat (dirty_evictions ?stats) = nat (dirty_eviction fin) * 2 ^ nat b" by simp
  have "dirty_eviction fin' * ?B \<le> int (length (trace @ [r])) * ?B"
    using d1(2) by (intro mult_right_mono) simp_all
  with N2 have "dirty_eviction fin' * ?B < 2 ^ 31" by linarith
  from unat_bytes[OF d1(1) this]
  have u': "unat (dirty_evictions ?stats') = nat (dirty_eviction fin') * 2 ^ nat b" by simp
  have ev: "unat (dirty_evictions ?stats') = unat (dirty_evictions ?stats) + 2 ^ nat b"
    if "j < length (cache fin) \<and> x \<in> set (lines (cache fin ! j))
          \<and> dirty_bit x = 1 \<and> x \<notin> set (lines (cache fin' ! j))" for j x
  proof -
    from that have "dirty_eviction fin' = dirty_eviction fin + 1"
      using step_dirty_stays[OF st, of j x] by simp
    then have "nat (dirty_eviction fin') = nat (dirty_eviction fin) + 1"
      using d0(1) by simp
    then show ?thesis unfolding u u' by simp
  qed
  show "\<exists>fin fin' stats stats'.
                  simulate s b E (initial_state (2 ^ nat s)) trace = Inr fin
                \<and> step s b E fin r = Inr fin'
                \<and> main s E b trace = Inr stats
                \<and> main s E b (trace @ [r]) = Inr stats'
                \<and> unat (dirty_evictions stats) = nat (dirty_eviction fin) * 2 ^ nat b
                \<and> unat (dirty_evictions stats') = nat (dirty_eviction fin') * 2 ^ nat b
                \<and> (\<forall>j x. j < length (cache fin) \<and> x \<in> set (lines (cache fin ! j))
                       \<and> dirty_bit x = 1 \<and> x \<notin> set (lines (cache fin' ! j)) \<longrightarrow>
                     unat (dirty_evictions stats') = unat (dirty_evictions stats) + 2 ^ nat b)"
    apply (rule exI[of _ fin], rule exI[of _ fin'], rule exI[of _ ?stats], rule exI[of _ ?stats'])
    using fin(1,3) fin'(3) st u u' ev by blast
qed

theorem dirty_propagation_witness:
  "(\<exists>st1 st2.
      count 1 \<lparr>cache = [\<lparr>lines = [\<lparr>valid_bit = 1, dirty_bit = 0, tag = 5\<rparr>], curr_line_num = 1\<rparr>],
               hit = 0, miss = 1, eviction = 0, dirty_count = 0, dirty_eviction = 0\<rparr> 5 0 1 = Inr st1
      \<and> hd (lines (cache st1 ! 0)) = \<lparr>valid_bit = 1, dirty_bit = 1, tag = 5\<rparr>
      \<and> count 1 st1 5 0 0 = Inr st2
      \<and> hd (lines (cache st2 ! 0)) = \<lparr>valid_bit = 1, dirty_bit = 1, tag = 5\<rparr>)
   \<and> count 1 \<lparr>cache = [\<lparr>lines = [\<lparr>valid_bit = 1, dirty_bit = 1, tag = 5\<rparr>], curr_line_num = 1\<rparr>],
               hit = 0, miss = 1, eviction = 0, dirty_count = 0, dirty_eviction = 0\<rparr> 6 0 0
       = Inr \<lparr>cache = [\<lparr>lines = [\<lparr>valid_bit = 1, dirty_bit = 0, tag = 6\<rparr>], curr_line_num = 1\<rparr>],
               hit = 0, miss = 2, eviction = 1, dirty_count = 0, dirty_eviction = 1\<rparr>
   \<and> main 1 1 4 [(CHR ''S'', 0, 1)] =
       Inr \<lparr>hits = 0, misses = 1, evictions = 0, dirty_bytes = 16, dirty_evictions = 0\<rparr>
   \<and> main 1 1 4 [(CHR ''S'', 0, 1), (CHR ''L'', 0x20, 1)] =
       Inr \<lparr>hits = 0, misses = 2, evictions = 1, dirty_bytes = 0, dirty_evictions = 16\<rparr>
   \<and> unat (dirty_evictions
         \<lparr>hits = 0, misses = 2, evictions = 1, dirty_bytes = 0, dirty_evictions = 16\<rparr>)
       = unat (dirty_evictions
         \<lparr>hits = 0, misses = 1, evictions = 0, dirty_bytes = 16, dirty_evictions = 0\<rparr>) + 2 ^ nat 4"
proof -
  let ?W = "\<lparr>cache = [\<lparr>lines = [\<lparr>valid_bit = 1, dirty_bit = 0, tag = 5\<rparr>], curr_line_num = 1\<rparr>],
               hit = 0, miss = 1, eviction = 0, dirty_count = 0, dirty_eviction = 0\<rparr>"
  let ?D = "\<lparr>cache = [\<lparr>lines = [\<lparr>valid_bit = 1, dirty_bit = 1, tag = 5\<rparr>], curr_line_num = 1\<rparr>],
               hit = 0, miss = 1, eviction = 0, dirty_count = 0, dirty_eviction = 0\<rparr>"
  let ?R = "\<lparr>cache = [\<lparr>lines = [\<lparr>valid_bit = 1, dirty_bit = 0, tag = 6\<rparr>], curr_line_num = 1\<rparr>],
               hit = 0, miss = 2, eviction = 1, dirty_count = 0, dirty_eviction = 1\<rparr>"
  let ?x = "\<lparr>valid_bit = 1, dirty_bit = 1, tag = 0\<rparr>"
  let ?fin = "\<lparr>cache = [\<lparr>lines = [?x], curr_line_num = 1\<rparr>, \<lparr>lines = [], curr_line_num = 0\<rparr>],
               hit = 0, miss = 1, eviction = 0, dirty_count = 0, dirty_eviction = 0\<rparr>"
  let ?fin' = "\<lparr>cache = [\<lparr>lines = [\<lparr>valid_bit = 1, dirty_bit = 0, tag = 1\<rparr>], curr_line_num = 1\<rparr>,
                          \<lparr>lines = [], curr_line_num = 0\<rparr>],
               hit = 0, miss = 2, eviction = 1, dirty_count = 0, dirty_eviction = 1\<rparr>"
  let ?A = "\<lparr>hits = 0, misses = 1, evictions = 0, dirty_bytes = 16, dirty_evictions = 0\<rparr>"
  let ?B = "\<lparr>hits = 0, misses = 2, evictions = 1, dirty_bytes = 0, dirty_evictions = 16\<rparr>"
  have p1: "\<exists>st1 st2. count 1 ?W 5 0 1 = Inr st1
      \<and> hd (lines (cache st1 ! 0)) = \<lparr>valid_bit = 1, dirty_bit = 1, tag = 5\<rparr>
      \<and> count 1 st1 5 0 0 = Inr st2
      \<and> hd (lines (cache st2 ! 0)) = \<lparr>valid_bit = 1, dirty_bit = 1, tag = 5\<rparr>"
    using dirty_propagation [where cset = 0 and st = ?W and ctag = 5 and E = 1
        and l = "\<lparr>valid_bit = 1, dirty_bit = 0, tag = 5\<rparr>", THEN conjunct1]
    by (simp add: holds_tag_def)
  have cR: "count 1 ?D 6 0 0 = Inr ?R" by code_simp
  have "\<lparr>valid_bit = 1, dirty_bit = 1, tag = 5\<rparr> \<in> set (lines (cache ?R ! 0))
      \<or> (0 = unat (0::64 word)
          \<and> \<lparr>valid_bit = 1, dirty_bit = 1, tag = 5\<rparr> = last (lines (cache ?D ! 0))
          \<and> eviction ?R = eviction ?D + 1 \<and> dirty_eviction ?R = dirty_eviction ?D + 1)"
    using dirty_propagation [where cset = 0 and st = ?D and ctag = 6 and E = 1 and d = 0,
        THEN conjunct2, THEN conjunct1, rule_format,
        of ?R 0 "\<lparr>valid_bit = 1, dirty_bit = 1, tag = 5\<rparr>"] cR
    by simp
  then have p2: "eviction ?R = eviction ?D + 1 \<and> dirty_eviction ?R = dirty_eviction ?D + 1"
    by simp
  have mA: "main 1 1 4 [(CHR ''S'', 0, 1)] = Inr ?A" by code_simp
  have mB: "main 1 1 4 [(CHR ''S'', 0, 1), (CHR ''L'', 0x20, 1)] = Inr ?B" by code_simp
  have sA: "simulate 1 4 1 (initial_state (2 ^ nat 1)) [(CHR ''S'', 0, 1)] = Inr ?fin"
    by code_simp
  have sB: "step 1 4 1 ?fin (CHR ''L'', 0x20, 1) = Inr ?fin'" by code_simp
  from dirty_propagation [where cset = 0 and st = ?D and E = 1 and s = 1 and b = 4
      and trace = "[(CHR ''S'', 0, 1)]" and r = "(CHR ''L'', 0x20, 1)",
      THEN conjunct2, THEN conjunct2]
  obtain fin fin' stats stats' where
    h: "simulate 1 4 1 (initial_state (2 ^ nat 1)) [(CHR ''S'', 0, 1)] = Inr fin"
       "step 1 4 1 fin (CHR ''L'', 0x20, 1) = Inr fin'"
       "main 1 1 4 [(CHR ''S'', 0, 1)] = Inr stats"
       "main 1 1 4 ([(CHR ''S'', 0, 1)] @ [(CHR ''L'', 0x20, 1)]) = Inr stats'"
       "\<forall>j x. j < length (cache fin) \<and> x \<in> set (lines (cache fin ! j))
               \<and> dirty_bit x = 1 \<and> x \<notin> set (lines (cache fin' ! j)) \<longrightarrow>
             unat (dirty_evictions stats') = unat (dirty_evictions stats) + 2 ^ nat 4"
    by auto
  from h(1) sA have f: "fin = ?fin" by simp
  from h(2) sB f have f': "fin' = ?fin'" by simp
  from h(3) mA have a: "stats = ?A" by simp
  from h(4) mB have b: "stats' = ?B" by simp
  have "0 < length (cache ?fin) \<and> ?x \<in> set (lines (cache ?fin ! 0))
               \<and> dirty_bit ?x = 1 \<and> ?x \<notin> set (lines (cache ?fin' ! 0))" by simp
  with h(5) have p3: "unat (dirty_evictions ?B) = unat (dirty_evictions ?A) + 2 ^ nat 4"
    unfolding f f' a b by blast
  show ?thesis using p1 cR mA mB p3 by blast
qed

text \<open>
  With s = 1, E = 1, b = 31 the store to address 0 and the load from address \<open>2 ^ 32\<close>
  meet in set 0, and the load evicts the dirty line: \<^verbatim>\<open>dirty_eviction\<close> goes from 0 to 1.
  The block size \<^verbatim>\<open>1 << 31\<close> of line 212 does not fit an \<^verbatim>\<open>int\<close>, so the program has no
  defined value to report on line 248, where the claim has \<open>2 ^ 31\<close>.
\<close>

theorem dirty_eviction_bytes_counterexample:
  "dirty_eviction (state_of (simulate 1 31 1 (initial_state 2) [(CHR ''S'', 0, 1)])) = 0
   \<and> dirty_eviction (state_of (simulate 1 31 1 (initial_state 2)
         [(CHR ''S'', 0, 1), (CHR ''L'', 0x100000000, 1)])) = 1
   \<and> int_shl1 31 = None
   \<and> main 1 1 31 [(CHR ''S'', 0, 1), (CHR ''L'', 0x100000000, 1)] =
       Inl (UndefinedShift,
         \<lparr>cache = [], hit = 0, miss = 0, eviction = 0, dirty_count = 0, dirty_eviction = 0\<rparr>)"
  by code_simp

section \<open>The dirty bytes of the report\<close>

text \<open>
  Claim C7, as the code has it.
  \<^item> No access contributes: \<^verbatim>\<open>count\<close> leaves \<^verbatim>\<open>dirty_count\<close> as it is, whatever its outcome,
    and after any trace the loop of \<^verbatim>\<open>main\<close> leaves it at 0.
  \<^item> For \<open>E \<ge> 1\<close>, \<open>1 \<le> s \<le> 30\<close>, \<open>0 \<le> b \<le> 30\<close> and a trace whose number of records times
    \<open>2 ^ b\<close> is below \<open>2 ^ 31\<close>, the loop goes through, \<^verbatim>\<open>main\<close> (its allocations
    succeeding) yields its report, and the reported \<^verbatim>\<open>dirty_bytes\<close> is the number of lines resident after the last record whose
    dirty bit is 1, times \<open>2 ^ b\<close>: the one sweep of \<^verbatim>\<open>free_cache\<close> over the final cache.
\<close>

theorem dirty_bytes_at_teardown:
  "dirty_count (state_of (count E st ctag cset d)) = dirty_count st
   \<and> dirty_count (state_of (simulate s b E (initial_state S) trace)) = 0
   \<and> (1 \<le> E \<and> 1 \<le> s \<and> s \<le> 30 \<and> 0 \<le> b \<and> b \<le> 30
        \<and> int (length trace) * 2 ^ nat b < 2 ^ 31 \<longrightarrow>
        (\<exists>fin stats. simulate s b E (initial_state (2 ^ nat s)) trace = Inr fin
             \<and> main s E b trace = Inr stats
             \<and> unat (dirty_bytes stats) = resident_dirty (cache fin) * 2 ^ nat b))"
proof (intro conjI impI)
  show "dirty_count (state_of (count E st ctag cset d)) = dirty_count st"
    by (rule count_dirty_count)
next
  show "dirty_count (state_of (simulate s b E (initial_state S) trace)) = 0"
    using simulate_dirty_count[of s b E "initial_state S" trace]
    by (simp add: initial_state_def)
next
  let ?B = "(2::int) ^ nat b"
  assume "1 \<le> E \<and> 1 \<le> s \<and> s \<le> 30 \<and> 0 \<le> b \<and> b \<le> 30
        \<and> int (length trace) * 2 ^ nat b < 2 ^ 31"
  then have E: "1 \<le> E" and s: "1 \<le> s" "s \<le> 30" and b: "0 \<le> b" "b \<le> 30"
    and N: "int (length trace) * ?B < 2 ^ 31" by simp_all
  from main_report[OF E s b N] obtain fin where
    fin: "simulate s b E (initial_state (2 ^ nat s)) trace = Inr fin"
      "bounded (length trace) fin"
      "main s E b trace =
         Inr \<lparr>hits = word_of_int (hit fin), misses = word_of_int (miss fin),
              evictions = word_of_int (eviction fin),
              dirty_bytes = word_of_int (int (resident_dirty (cache fin)) * ?B),
              dirty_evictions = word_of_int (dirty_eviction fin * ?B)\<rparr>" by blast
  let ?stats = "\<lparr>hits = word_of_int (hit fin), misses = word_of_int (miss fin),
              evictions = word_of_int (eviction fin),
              dirty_bytes = word_of_int (int (resident_dirty (cache fin)) * ?B),
              dirty_evictions = word_of_int (dirty_eviction fin * ?B)\<rparr>"
  have "int (resident_dirty (cache fin)) \<le> int (resident_lines (cache fin))"
    using resident_dirty_le[of "cache fin"] by simp
  with fin(2) have "int (resident_dirty (cache fin)) \<le> int (length trace)"
    unfolding bounded_def by linarith
  then have "int (resident_dirty (cache fin)) * ?B \<le> int (length trace) * ?B"
    by (intro mult_right_mono) simp_all
  with N have "int (resident_dirty (cache fin)) * ?B < 2 ^ 31" by linarith
  from unat_small_product[OF this]
  have "unat (dirty_bytes ?stats) = resident_dirty (cache fin) * 2 ^ nat b" by simp
  with fin(1,3)
  show "\<exists>fin stats. simulate s b E (initial_state (2 ^ nat s)) trace = Inr fin
             \<and> main s E b trace = Inr stats
             \<and> unat (dirty_bytes stats) = resident_dirty (cache fin) * 2 ^ nat b" by blast
qed

theorem dirty_bytes_at_teardown_witness:
  "main 1 2 4 [(CHR ''S'', 0x10, 1), (CHR ''L'', 0x20, 1), (CHR ''S'', 0x30, 1)] =
     Inr \<lparr>hits = 0, misses = 3, evictions = 0, dirty_bytes = 32, dirty_evictions = 0\<rparr>
   \<and> resident_dirty (cache (state_of (simulate 1 4 2 (initial_state (2 ^ nat 1))
        [(CHR ''S'', 0x10, 1), (CHR ''L'', 0x20, 1), (CHR ''S'', 0x30, 1)]))) = 2
   \<and> (\<exists>fin stats. simulate 1 4 2 (initial_state (2 ^ nat 1))
          [(CHR ''S'', 0x10, 1), (CHR ''L'', 0x20, 1), (CHR ''S'', 0x30, 1)] = Inr fin
        \<and> main 1 2 4 [(CHR ''S'', 0x10, 1), (CHR ''L'', 0x20, 1), (CHR ''S'', 0x30, 1)] = Inr stats
        \<and> unat (dirty_bytes stats) = resident_dirty (cache fin) * 2 ^ nat 4)"
proof -
  have m: "main 1 2 4 [(CHR ''S'', 0x10, 1), (CHR ''L'', 0x20, 1), (CHR ''S'', 0x30, 1)] =
     Inr \<lparr>hits = 0, misses = 3, evictions = 0, dirty_bytes = 32, dirty_evictions = 0\<rparr>"
    by code_simp
  have r: "resident_dirty (cache (state_of (simulate 1 4 2 (initial_state (2 ^ nat 1))
        [(CHR ''S'', 0x10, 1), (CHR ''L'', 0x20, 1), (CHR ''S'', 0x30, 1)]))) = 2"
    by code_simp
  have "\<exists>fin stats. simulate 1 4 2 (initial_state (2 ^ nat 1))
          [(CHR ''S'', 0x10, 1), (CHR ''L'', 0x20, 1), (CHR ''S'', 0x30, 1)] = Inr fin
        \<and> main 1 2 4 [(CHR ''S'', 0x10, 1), (CHR ''L'', 0x20, 1), (CHR ''S'', 0x30, 1)] = Inr stats
        \<and> unat (dirty_bytes stats) = resident_dirty (cache fin) * 2 ^ nat 4"
    using dirty_bytes_at_teardown [where E = 2 and s = 1 and b = 4
       and trace = "[(CHR ''S'', 0x10, 1), (CHR ''L'', 0x20, 1), (CHR ''S'', 0x30, 1)]",
       THEN conjunct2, THEN conjunct2]
    by simp
  with m r show ?thesis by blast
qed

text \<open>
  With s = 1, E = 1, b = 30 the stores to addresses 0 and \<open>2 ^ 30\<close> go to the two sets,
  and two dirty lines are resident at the end, for which the claim has \<^verbatim>\<open>dirty_bytes\<close> =
  \<open>2 * 2 ^ 30\<close>. Line 249 multiplies the \<^verbatim>\<open>int\<close>s 2 and \<open>2 ^ 30\<close>: the product does not fit
  an \<^verbatim>\<open>int\<close>, so the program has no defined value to report.
\<close>

theorem dirty_bytes_counterexample:
  "resident_dirty (cache (state_of (simulate 1 30 1 (initial_state 2)
       [(CHR ''S'', 0, 1), (CHR ''S'', 0x40000000, 1)]))) = 2
   \<and> main 1 1 30 [(CHR ''S'', 0, 1), (CHR ''S'', 0x40000000, 1)] =
       Inl (IntOverflow,
         \<lparr>cache = [], hit = 0, miss = 2, eviction = 0, dirty_count = 2, dirty_eviction = 0\<rparr>)"
  by code_simp

end
